theory Spec2Isabelle
  imports Complex_Main "HOL-Library.Multiset"
begin

section \<open>JavaScript library operations used by the program\<close>

subsection \<open>Array.prototype.sort with a comparator\<close>

text \<open>
  \<^verbatim>\<open>xs.sort(cmp)\<close> is stable (ECMAScript 2019): an element moves behind another one only
  when the comparator returns a positive number for the pair. It is modelled as a stable
  insertion sort driven by the comparator, which returns a number.
\<close>

fun insert_by :: "('a \<Rightarrow> 'a \<Rightarrow> 'n::{zero,linorder}) \<Rightarrow> 'a \<Rightarrow> 'a list \<Rightarrow> 'a list" where
  "insert_by cmp x [] = [x]"
| "insert_by cmp x (y # ys) =
     (if cmp x y \<le> 0 then x # y # ys else y # insert_by cmp x ys)"

fun js_sort :: "('a \<Rightarrow> 'a \<Rightarrow> 'n::{zero,linorder}) \<Rightarrow> 'a list \<Rightarrow> 'a list" where
  "js_sort cmp [] = []"
| "js_sort cmp (x # xs) = insert_by cmp x (js_sort cmp xs)"

subsection \<open>String.prototype.trim\<close>

text \<open>
  Strings are lists of 8-bit characters (code units up to U+00FF). The white space and line
  terminator code units in that range are TAB, LF, VT, FF, CR, SPACE and NO-BREAK SPACE.
\<close>

definition isWhite :: "char \<Rightarrow> bool" where
  "isWhite c = (of_char c \<in> {9, 10, 11, 12, 13, 32, 160 :: nat})"

definition trim :: "string \<Rightarrow> string" where
  "trim s = rev (dropWhile isWhite (rev (dropWhile isWhite s)))"

section \<open>Backend: searchController.js\<close>

subsection \<open>Data\<close>

text \<open>
  A stored product or article, as the collection returns it. \<open>p_score\<close> / \<open>a_score\<close> is the
  \<^verbatim>\<open>score\<close> property of the document: the schemas declare no such field, a projection
  with \<^verbatim>\<open>score: { $meta: "textScore" }\<close> would add it.
\<close>

record product_doc =
  p_id :: nat
  p_name :: string
  p_description :: string
  p_category :: "string option"
  p_price :: "rat option"
  p_score :: "rat option"

record article_doc =
  a_id :: nat
  a_title :: string
  a_content :: string
  a_author :: "string option"
  a_tags :: "string list"
  a_score :: "rat option"

text \<open>One element of the \<^verbatim>\<open>results\<close> array; the constructor is the \<^verbatim>\<open>type\<close> label.\<close>

datatype result =
    Product (rid: nat) (rname: string) (rdescription: string)
            (rcategory: "string option") (rprice: "rat option") (score: rat)
  | Article (rid: nat) (rtitle: string) (rcontent: string)
            (rauthor: "string option") (rtags: "string list") (score: rat)

text \<open>What makes the handler's \<^verbatim>\<open>try\<close> block throw.\<close>

datatype failure =
    TrimIsNotAFunction
  | QueryRejected
  | SourceUnavailable

text \<open>The value of \<^verbatim>\<open>req.query.q\<close>: absent, a string, or an array/object built by the
  query-string parser (\<^verbatim>\<open>?q=a&q=b\<close>).\<close>

datatype qparam = Absent | Str string | NonString

text \<open>
  The JSON response: the HTTP status and the keys of the body. A key the handler does not
  write is \<open>None\<close>.
\<close>

record response =
  res_status :: nat
  res_success :: bool
  res_count :: "nat option"
  res_query :: "string option"
  res_message :: "string option"
  res_results :: "result list option"
  res_error :: "failure option"

text \<open>
  The database is outside the repository. Each collection is a parameter: given the
  \<^verbatim>\<open>$regex\<close> pattern (option \<^verbatim>\<open>i\<close>), it yields the stored documents one of whose three
  searched fields matches, or fails. The latencies are the times the two queries take.
\<close>

record db =
  findProducts :: "string \<Rightarrow> failure + product_doc list"
  findArticles :: "string \<Rightarrow> failure + article_doc list"
  productLatency :: nat
  articleLatency :: nat

datatype source = Products | Articles

text \<open>A query handed to a collection (with its pattern and the time), and its completion.\<close>

datatype event = Issued source string nat | Settled source nat

subsection \<open>The handler\<close>

text \<open>The projections of the two \<^verbatim>\<open>find\<close> calls keep the listed fields and \<^verbatim>\<open>_id\<close>.\<close>

definition project_product :: "product_doc \<Rightarrow> product_doc" where
  "project_product d = d\<lparr>p_score := None\<rparr>"

definition project_article :: "article_doc \<Rightarrow> article_doc" where
  "project_article d = d\<lparr>a_score := None\<rparr>"

text \<open>\<^verbatim>\<open>x ?? 0\<close>\<close>

definition orZero :: "rat option \<Rightarrow> rat" where
  "orZero x = (case x of None \<Rightarrow> 0 | Some v \<Rightarrow> v)"

definition productResult :: "product_doc \<Rightarrow> result" where
  "productResult p =
     Product (p_id p) (p_name p) (p_description p) (p_category p) (p_price p)
             (orZero (p_score p))"

definition articleResult :: "article_doc \<Rightarrow> result" where
  "articleResult a =
     Article (a_id a) (a_title a) (a_content a) (a_author a) (a_tags a)
             (orZero (a_score a))"

text \<open>Lines 78-97: the combined array.\<close>

definition combine :: "product_doc list \<Rightarrow> article_doc list \<Rightarrow> result list" where
  "combine products articles = map productResult products @ map articleResult articles"

text \<open>Line 100: \<^verbatim>\<open>results.sort((a, b) => b.score - a.score)\<close>.\<close>

definition byScore :: "result \<Rightarrow> result \<Rightarrow> rat" where
  "byScore a b = score b - score a"

definition rank :: "result list \<Rightarrow> result list" where
  "rank rs = js_sort byScore rs"

definition badRequest :: response where
  "badRequest =
     \<lparr>res_status = 400, res_success = False, res_count = None, res_query = None,
      res_message = Some ''Search term is required. Use ?q=your-search-term'',
      res_results = None, res_error = None\<rparr>"

definition serverError :: "failure \<Rightarrow> response" where
  "serverError e =
     \<lparr>res_status = 500, res_success = False, res_count = None, res_query = None,
      res_message = Some ''Server error occurred'', res_results = None, res_error = Some e\<rparr>"

text \<open>Lines 102-118.\<close>

definition respond :: "string \<Rightarrow> result list \<Rightarrow> response" where
  "respond searchTerm rs =
     (if length rs = 0
      then \<lparr>res_status = 200, res_success = True, res_count = Some 0, res_query = None,
            res_message = Some (''No results found for '' @ [CHR 0x22] @ searchTerm @ [CHR 0x22]),
            res_results = Some [], res_error = None\<rparr>
      else \<lparr>res_status = 200, res_success = True, res_count = Some (length rs),
            res_query = Some searchTerm, res_message = None, res_results = Some rs, res_error = None\<rparr>)"

text \<open>
  The handler returns the response and the trace of the queries it made. Each \<^verbatim>\<open>await\<close>
  suspends the handler until its query has settled; a rejected query throws into the
  \<^verbatim>\<open>catch\<close> block.
\<close>

definition globalSearch :: "db \<Rightarrow> qparam \<Rightarrow> response \<times> event list" where
  "globalSearch d q =
     (case q of
        Absent \<Rightarrow> (badRequest, [])
      | NonString \<Rightarrow> (serverError TrimIsNotAFunction, [])
      | Str searchTerm \<Rightarrow>
          (if searchTerm = [] \<or> trim searchTerm = [] then (badRequest, [])
           else
             (let t1 = productLatency d;
                  log1 = [Issued Products searchTerm 0, Settled Products t1]
              in (case findProducts d searchTerm of
                    Inl e \<Rightarrow> (serverError e, log1)
                  | Inr pdocs \<Rightarrow>
                      (let products = map project_product pdocs;
                           t2 = t1 + articleLatency d;
                           log2 = log1 @ [Issued Articles searchTerm t1, Settled Articles t2]
                       in (case findArticles d searchTerm of
                             Inl e \<Rightarrow> (serverError e, log2)
                           | Inr adocs \<Rightarrow>
                               (respond searchTerm
                                  (rank (combine products (map project_article adocs))),
                                log2)))))))"

section \<open>Regular expressions\<close>

text \<open>
  The highlighter builds patterns from the user's query, and the backend hands the query to
  the database as a pattern. Patterns are given the syntax and the backtracking semantics
  that JavaScript and PCRE share, for the part of the language modelled here: pattern
  characters, identity escapes, the dot (any character but a line feed or a carriage
  return), anchors, alternation, capturing groups and the greedy quantifiers. Anything else (classes, braces, class escapes, lazy or possessive
  quantifiers, group modifiers) is reported as \<open>Unsupported\<close>.
\<close>

datatype rx =
    Chr char
  | AnyChar
  | Bol
  | Eol
  | Eps
  | Cat rx rx
  | Or rx rx
  | Grp rx
  | Star rx
  | Plus rx
  | Opt rx

datatype perr = SyntaxError | Unsupported

text \<open>
  The parser reads the pattern from left to right. A frame holds the alternatives already
  closed in the current group and the terms of the alternative being read, both in reverse;
  the stack holds the frames of the enclosing groups.
\<close>

type_synonym frame = "rx list \<times> rx list"

fun seqOf :: "rx list \<Rightarrow> rx" where
  "seqOf [] = Eps"
| "seqOf [t] = t"
| "seqOf (t # ts) = Cat t (seqOf ts)"

fun altOf :: "rx list \<Rightarrow> rx" where
  "altOf [] = Eps"
| "altOf [a] = a"
| "altOf (a # as) = Or a (altOf as)"

definition pushTerm :: "rx \<Rightarrow> frame \<Rightarrow> frame" where
  "pushTerm t f = (fst f, t # snd f)"

definition newAlt :: "frame \<Rightarrow> frame" where
  "newAlt f = (seqOf (rev (snd f)) # fst f, [])"

definition closeFrame :: "frame \<Rightarrow> rx" where
  "closeFrame f = altOf (rev (seqOf (rev (snd f)) # fst f))"

text \<open>A backslash before a letter, a digit or an underscore is a class escape, a control
  escape or a back reference; before any other character it makes the character literal.\<close>

definition isWordChar :: "char \<Rightarrow> bool" where
  "isWordChar c =
     (let n = (of_char c :: nat)
      in (48 \<le> n \<and> n \<le> 57) \<or> (65 \<le> n \<and> n \<le> 90) \<or> (97 \<le> n \<and> n \<le> 122) \<or> n = 95)"

text \<open>A quantifier applies to the term before it; with no term there is nothing to repeat.\<close>

fun quantify :: "char \<Rightarrow> frame \<Rightarrow> perr + frame" where
  "quantify c (as, []) = Inl SyntaxError"
| "quantify c (as, t # ts) =
     (case t of
        Chr x \<Rightarrow> Inr (as, (if c = CHR ''*'' then Star t else if c = CHR ''+'' then Plus t else Opt t) # ts)
      | AnyChar \<Rightarrow> Inr (as, (if c = CHR ''*'' then Star t else if c = CHR ''+'' then Plus t else Opt t) # ts)
      | Grp x \<Rightarrow> Inr (as, (if c = CHR ''*'' then Star t else if c = CHR ''+'' then Plus t else Opt t) # ts)
      | _ \<Rightarrow> Inl Unsupported)"

fun parse :: "string \<Rightarrow> frame \<Rightarrow> frame list \<Rightarrow> perr + rx" where
  "parse [] f st = (case st of [] \<Rightarrow> Inr (closeFrame f) | _ \<Rightarrow> Inl SyntaxError)"
| "parse (c # cs) f st =
     (if c = CHR 0x5C then
        (case cs of
           [] \<Rightarrow> Inl SyntaxError
         | e # cs' \<Rightarrow> if isWordChar e then Inl Unsupported else parse cs' (pushTerm (Chr e) f) st)
      else if c = CHR ''('' then
        (case cs of
           [] \<Rightarrow> Inl SyntaxError
         | e # cs' \<Rightarrow> if e = CHR ''?'' then Inl Unsupported else parse cs ([], []) (f # st))
      else if c = CHR '')'' then
        (case st of
           [] \<Rightarrow> Inl SyntaxError
         | g # st' \<Rightarrow> parse cs (pushTerm (Grp (closeFrame f)) g) st')
      else if c = CHR ''|'' then parse cs (newAlt f) st
      else if c = CHR ''*'' \<or> c = CHR ''+'' \<or> c = CHR ''?'' then
        (case quantify c f of Inl e \<Rightarrow> Inl e | Inr f' \<Rightarrow> parse cs f' st)
      else if c = CHR ''.'' then parse cs (pushTerm AnyChar f) st
      else if c = CHR ''^'' then parse cs (pushTerm Bol f) st
      else if c = CHR ''$'' then parse cs (pushTerm Eol f) st
      else if c = CHR ''['' \<or> c = CHR '']'' \<or> c = CHR ''{'' \<or> c = CHR ''}'' then Inl Unsupported
      else parse cs (pushTerm (Chr c) f) st)"

definition parsePattern :: "string \<Rightarrow> perr + rx" where
  "parsePattern p = parse p ([], []) []"

text \<open>
  Case-insensitive matching compares canonical (upper-case) code units. In the 8-bit range
  the letters with an upper-case partner in the range are a-z and the accented letters
  U+00E0 to U+00FE without the division sign.
\<close>

definition upper :: "char \<Rightarrow> char" where
  "upper c =
     (let n = (of_char c :: nat)
      in if (97 \<le> n \<and> n \<le> 122) \<or> (224 \<le> n \<and> n \<le> 254 \<and> n \<noteq> 247)
         then char_of (n - 32) else c)"

definition canon :: "bool \<Rightarrow> char \<Rightarrow> char" where
  "canon ic c = (if ic then upper c else c)"

definition isLineTerminator :: "char \<Rightarrow> bool" where
  "isLineTerminator c = (of_char c \<in> {10, 13 :: nat})"

text \<open>
  \<open>matchRx ic n r s\<close> lists, in the order in which a backtracking matcher tries them, the
  remainders of \<open>s\<close> after a match of \<open>r\<close> at the front of \<open>s\<close>; \<open>n\<close> is the length
  of the whole input, so that \<open>length s = n\<close> means the start of input. An iteration of a
  starred term that consumes nothing is rejected.
\<close>

fun weight :: "rx \<Rightarrow> nat" where
  "weight (Cat a b) = Suc (weight a + weight b)"
| "weight (Or a b) = Suc (weight a + weight b)"
| "weight (Grp a) = Suc (weight a)"
| "weight (Star a) = Suc (weight a)"
| "weight (Plus a) = Suc (Suc (weight a))"
| "weight (Opt a) = Suc (weight a)"
| "weight _ = 0"

function matchRx :: "bool \<Rightarrow> nat \<Rightarrow> rx \<Rightarrow> string \<Rightarrow> string list" where
  "matchRx ic n (Chr c) s =
     (case s of [] \<Rightarrow> [] | x # xs \<Rightarrow> if canon ic x = canon ic c then [xs] else [])"
| "matchRx ic n AnyChar s =
     (case s of [] \<Rightarrow> [] | x # xs \<Rightarrow> if isLineTerminator x then [] else [xs])"
| "matchRx ic n Bol s = (if length s = n then [s] else [])"
| "matchRx ic n Eol s = (if s = [] then [s] else [])"
| "matchRx ic n Eps s = [s]"
| "matchRx ic n (Cat a b) s = concat (map (matchRx ic n b) (matchRx ic n a s))"
| "matchRx ic n (Or a b) s = matchRx ic n a s @ matchRx ic n b s"
| "matchRx ic n (Grp a) s = matchRx ic n a s"
| "matchRx ic n (Star a) s =
     concat (map (\<lambda>s'. if length s' < length s then matchRx ic n (Star a) s' else [])
                 (matchRx ic n a s)) @ [s]"
| "matchRx ic n (Plus a) s = concat (map (matchRx ic n (Star a)) (matchRx ic n a s))"
| "matchRx ic n (Opt a) s = filter (\<lambda>s'. length s' < length s) (matchRx ic n a s) @ [s]"
  by pat_completeness auto
termination
  by (relation "measures [\<lambda>(ic, n, r, s). weight r, \<lambda>(ic, n, r, s). length s]") auto

text \<open>The match found at index \<open>q\<close> exactly (a sticky match): the index where it ends.\<close>

definition matchAt :: "bool \<Rightarrow> rx \<Rightarrow> string \<Rightarrow> nat \<Rightarrow> nat option" where
  "matchAt ic r S q =
     (case matchRx ic (length S) r (drop q S) of
        [] \<Rightarrow> None
      | rest # _ \<Rightarrow> Some (q + (length (drop q S) - length rest)))"

text \<open>\<^verbatim>\<open>regex.test(S)\<close> for a regex that is not global: a match starting anywhere.\<close>

definition rtest :: "bool \<Rightarrow> rx \<Rightarrow> string \<Rightarrow> bool" where
  "rtest ic r S = list_ex (\<lambda>i. matchAt ic r S i \<noteq> None) [0..<Suc (length S)]"

subsection \<open>String.prototype.split with a regular expression\<close>

definition substring :: "string \<Rightarrow> nat \<Rightarrow> nat \<Rightarrow> string" where
  "substring S a b = take (b - a) (drop a S)"

text \<open>
  \<^verbatim>\<open>split\<close> splices the captures of every match into its output. The model covers a
  pattern without groups and a pattern that is one group as a whole, whose capture is the
  text of the match.
\<close>

fun groupCount :: "rx \<Rightarrow> nat" where
  "groupCount (Grp a) = Suc (groupCount a)"
| "groupCount (Cat a b) = groupCount a + groupCount b"
| "groupCount (Or a b) = groupCount a + groupCount b"
| "groupCount (Star a) = groupCount a"
| "groupCount (Plus a) = groupCount a"
| "groupCount (Opt a) = groupCount a"
| "groupCount _ = 0"

definition captures :: "rx \<Rightarrow> string \<Rightarrow> nat \<Rightarrow> nat \<Rightarrow> string list" where
  "captures r S q e = (case r of Grp a \<Rightarrow> [substring S q e] | _ \<Rightarrow> [])"

text \<open>The loop of \<^verbatim>\<open>split\<close>: \<open>p\<close> is the end of the last separator, \<open>q\<close> the index
  where the next one is looked for.\<close>

function splitLoop :: "bool \<Rightarrow> rx \<Rightarrow> string \<Rightarrow> nat \<Rightarrow> nat \<Rightarrow> string list" where
  "splitLoop ic r S p q =
     (if q < length S then
        (case matchAt ic r S q of
           None \<Rightarrow> splitLoop ic r S p (q + 1)
         | Some z \<Rightarrow>
             (let e = min z (length S)
              in if e = p then splitLoop ic r S p (q + 1)
                 else substring S p q # captures r S q e @ splitLoop ic r S e e))
      else [substring S p (length S)])"
  by pat_completeness auto
termination
  by (relation "measures [\<lambda>(ic, r, S, p, q). length S - q, \<lambda>(ic, r, S, p, q). if p = q then 0 else 1]")
     (auto simp: matchAt_def split: list.splits)

declare splitLoop.simps [simp del]

definition jsSplit :: "bool \<Rightarrow> rx \<Rightarrow> string \<Rightarrow> perr + string list" where
  "jsSplit ic r S =
     (if (case r of Grp a \<Rightarrow> groupCount a = 0 | _ \<Rightarrow> groupCount r = 0)
      then Inr (if S = [] then (case matchAt ic r S 0 of None \<Rightarrow> [S] | Some z \<Rightarrow> [])
                else splitLoop ic r S 0 0)
      else Inl Unsupported)"

text \<open>\<^verbatim>\<open>s.split(/\s+/)\<close>: the pieces between the maximal runs of white space.\<close>

function splitWhite :: "string \<Rightarrow> string list" where
  "splitWhite s =
     (let tok = takeWhile (\<lambda>c. \<not> isWhite c) s;
          rest = dropWhile (\<lambda>c. \<not> isWhite c) s
      in if rest = [] then [tok] else tok # splitWhite (dropWhile isWhite rest))"
  by pat_completeness auto
termination
proof (relation "measure length", simp, goal_cases)
  case (1 s tok rest)
  then have "rest \<noteq> []" and r: "rest = dropWhile (\<lambda>c. \<not> isWhite c) s" by auto
  then have "isWhite (hd rest)" using hd_dropWhile [of "\<lambda>c. \<not> isWhite c" s] by auto
  with \<open>rest \<noteq> []\<close> have "length (dropWhile isWhite rest) < length rest"
    by (cases rest) (auto intro: le_imp_less_Suc length_dropWhile_le)
  moreover have "length rest \<le> length s" unfolding r by (rule length_dropWhile_le)
  ultimately show ?case by simp
qed

declare splitWhite.simps [simp del]

section \<open>Frontend: HighlightedText\<close>

text \<open>\<^verbatim>\<open>term.replace(/[.*+?^${}()|[\]\\]/g, '\\$&')\<close>\<close>

definition specials :: "char list" where
  "specials = [CHR ''.'', CHR ''*'', CHR ''+'', CHR ''?'', CHR ''^'', CHR ''$'', CHR ''{'', CHR ''}'',
               CHR ''('', CHR '')'', CHR ''|'', CHR ''['', CHR '']'', CHR 0x5C]"

definition escapeRegExp :: "string \<Rightarrow> string" where
  "escapeRegExp term = concat (map (\<lambda>c. if c \<in> set specials then [CHR 0x5C, c] else [c]) term)"

fun join :: "string \<Rightarrow> string list \<Rightarrow> string" where
  "join sep [] = []"
| "join sep [x] = x"
| "join sep (x # xs) = x @ sep @ join sep xs"

text \<open>Line 9: the terms of the query, longest first.\<close>

definition byLength :: "string \<Rightarrow> string \<Rightarrow> int" where
  "byLength a b = int (length b) - int (length a)"

definition queryTerms :: "string \<Rightarrow> string list" where
  "queryTerms query = js_sort byLength (filter (\<lambda>t. length t > 0) (splitWhite (trim query)))"

text \<open>Line 16: \<^verbatim>\<open>safeTerms.some(term => new RegExp(`^${term}$`, 'i').test(part))\<close>.
  A pattern that does not compile throws.\<close>

fun isMatch :: "string list \<Rightarrow> string \<Rightarrow> perr + bool" where
  "isMatch [] part = Inr False"
| "isMatch (term # ts) part =
     (case parsePattern (''^'' @ term @ ''$'') of
        Inl e \<Rightarrow> Inl e
      | Inr r \<Rightarrow> if rtest True r part then Inr True else isMatch ts part)"

text \<open>Lines 20-25: every part becomes a span, highlighted when \<open>isMatch\<close> holds.\<close>

fun renderParts :: "string list \<Rightarrow> string list \<Rightarrow> perr + (string \<times> bool) list" where
  "renderParts safeTerms [] = Inr []"
| "renderParts safeTerms (part # parts) =
     (case isMatch safeTerms part of
        Inl e \<Rightarrow> Inl e
      | Inr b \<Rightarrow> (case renderParts safeTerms parts of
                   Inl e \<Rightarrow> Inl e
                 | Inr spans \<Rightarrow> Inr ((part, b) # spans)))"

text \<open>The component returns the spans it renders, each with its text and whether it carries
  the highlight class. The \<^verbatim>\<open><span></span>\<close> of an empty text is one span without text;
  a pattern that does not compile makes the component throw.\<close>

definition HighlightedText :: "string \<Rightarrow> string \<Rightarrow> perr + (string \<times> bool) list" where
  "HighlightedText text query =
     (if text = [] then Inr [([], False)]
      else if query = [] then Inr [(text, False)]
      else
        (let terms = queryTerms query
         in if length terms = 0 then Inr [(text, False)]
            else
              (let safeTerms = map escapeRegExp terms
               in (case parsePattern (''('' @ join ''|'' safeTerms @ '')'') of
                     Inl e \<Rightarrow> Inl e
                   | Inr regex \<Rightarrow>
                       (case jsSplit True regex text of
                          Inl e \<Rightarrow> Inl e
                        | Inr parts \<Rightarrow> renderParts safeTerms parts)))))"

subsection \<open>Vocabulary for the properties of the highlighter\<close>

text \<open>The regular expression that a pattern of escaped terms denotes: each term is the
  sequence of its characters, taken literally.\<close>

definition lits :: "string \<Rightarrow> rx" where
  "lits t = seqOf (map Chr t)"

definition highlightRegex :: "string list \<Rightarrow> rx" where
  "highlightRegex ts = Grp (altOf (map lits ts))"

text \<open>Two strings are the same up to letter case; a term stands at the front of a
  string, or at index \<open>i\<close> of a text, up to letter case.\<close>

definition sameIgnoringCase :: "string \<Rightarrow> string \<Rightarrow> bool" where
  "sameIgnoringCase a b = (map upper a = map upper b)"

definition ciPrefix :: "string \<Rightarrow> string \<Rightarrow> bool" where
  "ciPrefix t s = (length t \<le> length s \<and> map upper (take (length t) s) = map upper t)"

definition occursAt :: "string \<Rightarrow> string \<Rightarrow> nat \<Rightarrow> bool" where
  "occursAt t text i =
     (i + length t \<le> length text \<and> sameIgnoringCase (substring text i (i + length t)) t)"

section \<open>Frontend: the search session of App\<close>

text \<open>An element of \<^verbatim>\<open>data.results\<close> as the client reads it: any key may be missing.\<close>

record item =
  i_id :: nat
  i_type :: string
  i_name :: "string option"
  i_title :: "string option"
  i_description :: "string option"
  i_content :: "string option"
  i_score :: "rat option"

text \<open>
  \<^verbatim>\<open>x.toFixed(2)\<close>: the decimal digits of the integer \<open>n\<close> for which \<open>n / 100\<close> is
  nearest to the magnitude of \<open>x\<close> (the larger one on a tie), with the point before the
  last two digits and a minus sign when \<open>x\<close> is negative. The number is the exact value of
  the double; magnitudes from \<open>10^21\<close> on, which print in exponent form, are left out.
\<close>

definition digitChar :: "nat \<Rightarrow> char" where
  "digitChar n = char_of (48 + n mod 10)"

function decimal :: "nat \<Rightarrow> string" where
  "decimal n = (if n < 10 then [digitChar n] else decimal (n div 10) @ [digitChar n])"
  by pat_completeness auto
termination
  by (relation "measure id") auto

declare decimal.simps [simp del]

definition toFixed2 :: "rat \<Rightarrow> string" where
  "toFixed2 x =
     (let n = nat \<lfloor>\<bar>x\<bar> * 100 + 1 / 2\<rfloor>;
          s = decimal (n div 100) @ ''.'' @ [digitChar (n div 10), digitChar n]
      in if x < 0 then ''-'' @ s else s)"

text \<open>The normalized element kept in the \<^verbatim>\<open>results\<close> state.\<close>

record card =
  c_id :: nat
  c_type :: string
  c_title :: string
  c_description :: string
  c_displayScore :: string

text \<open>\<^verbatim>\<open>a || b\<close> on strings: a missing or empty string is falsy.\<close>

definition truthy :: "string option \<Rightarrow> bool" where
  "truthy x = (case x of None \<Rightarrow> False | Some s \<Rightarrow> s \<noteq> [])"

definition normalizeItem :: "item \<Rightarrow> card" where
  "normalizeItem it =
     \<lparr>c_id = i_id it,
      c_type = i_type it,
      c_title = (if truthy (i_name it) then the (i_name it)
                 else if truthy (i_title it) then the (i_title it) else ''Untitled''),
      c_description = (if truthy (i_description it) then the (i_description it)
                       else if truthy (i_content it) then the (i_content it) else []),
      c_displayScore = (case i_score it of None \<Rightarrow> ''0.00'' | Some x \<Rightarrow> toFixed2 x)\<rparr>"

text \<open>How a request ends: with a body whose \<^verbatim>\<open>results\<close> key may be missing, or with a
  failure (the request fails, the status is not ok, or the body is not JSON).\<close>

datatype outcome = Ok "item list option" | Failed

text \<open>
  The state of the component: its five state variables, and the environment the effect
  talks to. \<open>timers\<close> are the pending timeouts (identifier, due time, the query captured
  by the callback); \<open>cleanup\<close> is the timer that the cleanup function of the last effect
  run clears (none when that run returned early); \<open>sent\<close> lists the queries of the
  requests made so far and \<open>pending\<close> the requests (by position in \<open>sent\<close>) not answered
  yet. Time is counted in milliseconds.
\<close>

record app =
  st_query :: string
  st_results :: "card list"
  st_isLoading :: bool
  st_hasSearched :: bool
  st_error :: bool
  clock :: nat
  nextTimer :: nat
  timers :: "(nat \<times> nat \<times> string) list"
  cleanup :: "nat option"
  sent :: "string list"
  pending :: "nat list"

definition initial :: app where
  "initial =
     \<lparr>st_query = [], st_results = [], st_isLoading = False, st_hasSearched = False,
      st_error = False, clock = 0, nextTimer = 0, timers = [], cleanup = None,
      sent = [], pending = []\<rparr>"

definition debounceDelay :: nat where
  "debounceDelay = 150"

text \<open>Lines 46-96: the effect on \<^verbatim>\<open>[query]\<close>, and the cleanup React runs before it.\<close>

definition clearTimeout :: "nat \<Rightarrow> app \<Rightarrow> app" where
  "clearTimeout i s = s\<lparr>timers := filter (\<lambda>t. fst t \<noteq> i) (timers s)\<rparr>"

definition runCleanup :: "app \<Rightarrow> app" where
  "runCleanup s = (case cleanup s of None \<Rightarrow> s | Some i \<Rightarrow> clearTimeout i s)"

definition runEffect :: "app \<Rightarrow> app" where
  "runEffect s =
     (if trim (st_query s) = []
      then s\<lparr>st_results := [], st_hasSearched := False, st_isLoading := False, cleanup := None\<rparr>
      else s\<lparr>timers := timers s @ [(nextTimer s, clock s + debounceDelay, st_query s)],
             cleanup := Some (nextTimer s),
             nextTimer := nextTimer s + 1\<rparr>)"

text \<open>\<^verbatim>\<open>setQuery(v)\<close>: setting the state to the value it has does not render again; a new
  value renders, runs the cleanup of the previous effect and then the effect.\<close>

definition setQuery :: "string \<Rightarrow> app \<Rightarrow> app" where
  "setQuery v s = (if v = st_query s then s else runEffect ((runCleanup s)\<lparr>st_query := v\<rparr>))"

text \<open>Lines 54-61: \<open>performSearch\<close> up to the \<^verbatim>\<open>await fetch\<close>.\<close>

definition performSearch :: "string \<Rightarrow> app \<Rightarrow> app" where
  "performSearch q s =
     s\<lparr>st_isLoading := True, st_error := False, st_hasSearched := True,
       sent := sent s @ [q], pending := pending s @ [length (sent s)]\<rparr>"

text \<open>Time passes by \<open>d\<close> milliseconds; the timeouts that are due run their callback.\<close>

definition isDue :: "nat \<Rightarrow> nat \<times> nat \<times> string \<Rightarrow> bool" where
  "isDue now t = (fst (snd t) \<le> now)"

definition elapse :: "nat \<Rightarrow> app \<Rightarrow> app" where
  "elapse d s =
     (let now = clock s + d
      in foldl (\<lambda>s' t. performSearch (snd (snd t)) s')
               (s\<lparr>clock := now, timers := filter (\<lambda>t. \<not> isDue now t) (timers s)\<rparr>)
               (filter (isDue now) (timers s)))"

text \<open>Lines 63-88: the rest of \<open>performSearch\<close>, run when request \<open>k\<close> is answered.\<close>

definition settle :: "nat \<Rightarrow> outcome \<Rightarrow> app \<Rightarrow> app" where
  "settle k out s =
     (if k \<in> set (pending s) then
        (let s1 = s\<lparr>pending := removeAll k (pending s)\<rparr>
         in case out of
              Ok data \<Rightarrow>
                s1\<lparr>st_results := map normalizeItem (case data of None \<Rightarrow> [] | Some its \<Rightarrow> its),
                   st_isLoading := False\<rparr>
            | Failed \<Rightarrow> s1\<lparr>st_error := True, st_results := [], st_isLoading := False\<rparr>)
      else s)"

datatype ui_event = Change string | Elapse nat | Respond nat outcome

fun step :: "app \<Rightarrow> ui_event \<Rightarrow> app" where
  "step s (Change v) = setQuery v s"
| "step s (Elapse d) = elapse d s"
| "step s (Respond k out) = settle k out s"

definition run :: "ui_event list \<Rightarrow> app" where
  "run es = foldl step initial es"

text \<open>Lines 152-193: what the results list shows.\<close>

datatype screen = Blank | ErrorMessage | Searching | NoResults | Cards "card list"

definition view :: "app \<Rightarrow> screen" where
  "view s =
     (if \<not> st_hasSearched s then Blank
      else if st_error s then ErrorMessage
      else if st_isLoading s \<and> length (st_results s) = 0 then Searching
      else if length (st_results s) = 0 then NoResults
      else Cards (st_results s))"

text \<open>A burst of input changes, each after a pause.\<close>

definition typing :: "(nat \<times> string) list \<Rightarrow> ui_event list" where
  "typing xs = concat (map (\<lambda>(gap, v). [Elapse gap, Change v]) xs)"

section \<open>Example data\<close>

text \<open>Documents of the seed script, and a database that finds them for the query
  \<^verbatim>\<open>laptop\<close> and nothing for any other query.\<close>

definition laptopScreen :: product_doc where
  "laptopScreen =
     \<lparr>p_id = 1, p_name = ''Laptop Screen Replacement 15.6 inch'',
      p_description = ''High-quality 15.6 inch laptop screen replacement panel.'',
      p_category = Some ''Electronics'', p_price = Some 3499, p_score = None\<rparr>"

definition laptopStand :: product_doc where
  "laptopStand =
     \<lparr>p_id = 3, p_name = ''Pro Laptop Stand for Desk'',
      p_description = ''Sturdy aluminum laptop stand.'',
      p_category = Some ''Accessories'', p_price = Some 1200, p_score = None\<rparr>"

definition fixScreen :: article_doc where
  "fixScreen =
     \<lparr>a_id = 11, a_title = ''How to Fix a Laptop Screen'',
      a_content = ''A complete step-by-step guide.'',
      a_author = Some ''Rahul Sharma'', a_tags = [''laptop'', ''repair''], a_score = None\<rparr>"

definition bestLaptops :: article_doc where
  "bestLaptops =
     \<lparr>a_id = 15, a_title = ''Best Laptops for Developers in 2024'',
      a_content = ''A curated list of the best laptops.'',
      a_author = Some ''Vikram Mehta'', a_tags = [''laptop'', ''review''], a_score = None\<rparr>"

definition seededDb :: db where
  "seededDb =
     \<lparr>findProducts = (\<lambda>p. if p = ''laptop'' then Inr [laptopScreen, laptopStand] else Inr []),
      findArticles = (\<lambda>p. if p = ''laptop'' then Inr [fixScreen, bestLaptops] else Inr []),
      productLatency = 30, articleLatency = 50\<rparr>"

text \<open>An element of a response body, as the client receives it.\<close>

definition mouseItem :: item where
  "mouseItem =
     \<lparr>i_id = 7, i_type = ''product'', i_name = Some ''Mouse pad'', i_title = None,
      i_description = Some ''A soft mouse pad'', i_content = None, i_score = Some (9 / 8)\<rparr>"

section \<open>Invariant of the search session\<close>

text \<open>One scheduled search at most, and it is for the current input.\<close>

definition scheduled_ok :: "app \<Rightarrow> bool" where
  "scheduled_ok s =
     (timers s = [] \<or> (\<exists>i due. timers s = [(i, due, st_query s)] \<and> cleanup s = Some i))"

section \<open>Properties of the comparator sort\<close>

lemma mset_insert_by: "mset (insert_by cmp x xs) = add_mset x (mset xs)"
  by (induction xs) auto

lemma mset_js_sort: "mset (js_sort cmp xs) = mset xs"
  by (induction xs) (auto simp: mset_insert_by)

lemma set_insert_by: "set (insert_by cmp x xs) = insert x (set xs)"
  by (induction xs) auto

lemma set_js_sort: "set (js_sort cmp xs) = set xs"
  by (induction xs) (auto simp: set_insert_by)

lemma sorted_insert_by:
  fixes k :: "'a \<Rightarrow> 'k::linorder"
  assumes key: "\<And>x y. (cmp x y \<le> 0) = (k y \<le> k x)"
  shows "sorted_wrt (\<lambda>a b. k b \<le> k a) xs \<Longrightarrow> sorted_wrt (\<lambda>a b. k b \<le> k a) (insert_by cmp x xs)"
proof (induction xs)
  case Nil
  then show ?case by simp
next
  case (Cons y ys)
  show ?case
  proof (cases "cmp x y \<le> 0")
    case True
    with Cons.prems key show ?thesis by (auto intro: order_trans)
  next
    case False
    with Cons key show ?thesis by (auto simp: set_insert_by)
  qed
qed

lemma sorted_js_sort:
  fixes k :: "'a \<Rightarrow> 'k::linorder"
  assumes key: "\<And>x y. (cmp x y \<le> 0) = (k y \<le> k x)"
  shows "sorted_wrt (\<lambda>a b. k b \<le> k a) (js_sort cmp xs)"
  by (induction xs) (auto intro: sorted_insert_by [OF key])

lemma filter_insert_by_other:
  "\<not> P x \<Longrightarrow> filter P (insert_by cmp x xs) = filter P xs"
  by (induction xs) auto

lemma filter_insert_by_same:
  fixes k :: "'a \<Rightarrow> 'k::linorder"
  assumes key: "\<And>x y. (cmp x y \<le> 0) = (k y \<le> k x)"
  shows "sorted_wrt (\<lambda>a b. k b \<le> k a) xs \<Longrightarrow>
         filter (\<lambda>y. k y = k x) (insert_by cmp x xs) = x # filter (\<lambda>y. k y = k x) xs"
proof (induction xs)
  case Nil
  then show ?case by simp
next
  case (Cons y ys)
  show ?case
  proof (cases "cmp x y \<le> 0")
    case True
    then show ?thesis by simp
  next
    case False
    then have "k x < k y" using key [of x y] by simp
    with False Cons show ?thesis by auto
  qed
qed

lemma js_sort_stable:
  fixes k :: "'a \<Rightarrow> 'k::linorder"
  assumes key: "\<And>x y. (cmp x y \<le> 0) = (k y \<le> k x)"
  shows "filter (\<lambda>y. k y = v) (js_sort cmp xs) = filter (\<lambda>y. k y = v) xs"
proof (induction xs)
  case Nil
  then show ?case by simp
next
  case (Cons x xs)
  show ?case
  proof (cases "k x = v")
    case True
    have "filter (\<lambda>y. k y = k x) (insert_by cmp x (js_sort cmp xs))
            = x # filter (\<lambda>y. k y = k x) (js_sort cmp xs)"
      by (rule filter_insert_by_same [OF key]) (rule sorted_js_sort [OF key])
    with True Cons show ?thesis by auto
  next
    case False
    with Cons show ?thesis by (simp add: filter_insert_by_other)
  qed
qed

lemma js_sort_id:
  assumes "\<And>x y. x \<in> set xs \<Longrightarrow> y \<in> set xs \<Longrightarrow> cmp x y \<le> 0"
  shows "js_sort cmp xs = xs"
  using assms
proof (induction xs)
  case Nil
  then show ?case by simp
next
  case (Cons x xs)
  then have "js_sort cmp xs = xs" by simp
  moreover have "insert_by cmp x xs = x # xs" using Cons.prems by (cases xs) auto
  ultimately show ?case by simp
qed

lemma byScore_key: "(byScore x y \<le> 0) = (score y \<le> score x)"
  by (simp add: byScore_def)

lemma rank_sorted: "sorted_wrt (\<lambda>a b. score b \<le> score a) (rank rs)"
  unfolding rank_def by (rule sorted_js_sort [OF byScore_key])

lemma rank_stable: "filter (\<lambda>r. score r = v) (rank rs) = filter (\<lambda>r. score r = v) rs"
  unfolding rank_def by (rule js_sort_stable [OF byScore_key])

lemmas ex_defs = laptopScreen_def laptopStand_def fixScreen_def bestLaptops_def seededDb_def
lemmas be_defs = globalSearch_def respond_def rank_def combine_def productResult_def articleResult_def
  project_product_def project_article_def orZero_def byScore_def trim_def isWhite_def badRequest_def serverError_def

section \<open>Backend: merging and ranking\<close>

lemma globalSearch_results:
  assumes "trim s \<noteq> []" and "findProducts d s = Inr ps" and "findArticles d s = Inr as"
  shows "res_results (fst (globalSearch d (Str s)))
           = Some (rank (combine (map project_product ps) (map project_article as)))"
proof -
  from assms(1) have "s \<noteq> []" by (auto simp: trim_def)
  with assms show ?thesis
    by (simp add: globalSearch_def Let_def respond_def)
qed

text \<open>
  Claim C1. In the array that lines 78-100 build from the two query results, a result with
  a strictly higher score stands before every result with a lower one; the results of
  one score are the products of that score in the order of the product query, followed by
  the articles of that score in the order of the article query (the sort is stable); and
  the ranked array has exactly the elements of the merged one. The \<^verbatim>\<open>results\<close> of a
  successful response are this array, built from the documents the two queries found.
\<close>

theorem ranked_results_sorted_stable:
  fixes products :: "product_doc list" and articles :: "article_doc list"
  defines "merged \<equiv> combine products articles"
  defines "ranked \<equiv> rank merged"
  shows "(\<forall>i < length ranked. \<forall>j < length ranked.
            score (ranked ! j) < score (ranked ! i) \<longrightarrow> i < j)
       \<and> (\<forall>v. filter (\<lambda>r. score r = v) ranked
               = map productResult (filter (\<lambda>p. orZero (p_score p) = v) products)
                 @ map articleResult (filter (\<lambda>a. orZero (a_score a) = v) articles))
       \<and> mset ranked = mset merged
       \<and> (\<forall>(d::db) s ps as. trim s \<noteq> [] \<and> findProducts d s = Inr ps \<and> findArticles d s = Inr as
             \<longrightarrow> res_results (fst (globalSearch d (Str s)))
                   = Some (rank (combine (map project_product ps) (map project_article as))))"
proof (intro conjI allI impI)
  fix i j
  assume ij: "i < length ranked" "j < length ranked"
    and lt: "score (ranked ! j) < score (ranked ! i)"
  have srt: "sorted_wrt (\<lambda>a b. score b \<le> score a) ranked"
    unfolding ranked_def by (rule rank_sorted)
  show "i < j"
  proof (rule ccontr)
    assume "\<not> i < j"
    then have "j \<le> i" by simp
    moreover have "j \<noteq> i" using lt by auto
    ultimately have "j < i" by simp
    with srt ij have "score (ranked ! i) \<le> score (ranked ! j)"
      by (simp add: sorted_wrt_iff_nth_less)
    with lt show False by simp
  qed
next
  fix v
  have "filter (\<lambda>r. score r = v) ranked = filter (\<lambda>r. score r = v) merged"
    unfolding ranked_def by (rule rank_stable)
  also have "\<dots> = map productResult (filter (\<lambda>p. orZero (p_score p) = v) products)
                 @ map articleResult (filter (\<lambda>a. orZero (a_score a) = v) articles)"
    by (simp add: merged_def combine_def filter_map o_def productResult_def articleResult_def)
  finally show "filter (\<lambda>r. score r = v) ranked
               = map productResult (filter (\<lambda>p. orZero (p_score p) = v) products)
                 @ map articleResult (filter (\<lambda>a. orZero (a_score a) = v) articles)" .
next
  show "mset ranked = mset merged"
    unfolding ranked_def rank_def by (rule mset_js_sort)
next
  fix d :: db and s ps as
  assume "trim s \<noteq> [] \<and> findProducts d s = Inr ps \<and> findArticles d s = Inr as"
  then show "res_results (fst (globalSearch d (Str s)))
               = Some (rank (combine (map project_product ps) (map project_article as)))"
    by (simp add: globalSearch_results)
qed

text \<open>Witness for C1: a scored product and article tie at 3/2 behind an article at 2 and
  before an unscored product.\<close>

theorem ranked_results_sorted_stable_witness:
  "(let ranked = rank (combine [laptopScreen\<lparr>p_score := Some (3/2)\<rparr>, laptopStand]
                               [fixScreen\<lparr>a_score := Some 2\<rparr>, bestLaptops\<lparr>a_score := Some (3/2)\<rparr>])
    in 0 < length ranked \<and> 3 < length ranked \<and> score (ranked ! 3) < score (ranked ! 0) \<and> (0::nat) < 3
       \<and> filter (\<lambda>r. score r = 3/2) ranked
           = [productResult (laptopScreen\<lparr>p_score := Some (3/2)\<rparr>),
              articleResult (bestLaptops\<lparr>a_score := Some (3/2)\<rparr>)])"
  using ranked_results_sorted_stable
    [of "[laptopScreen\<lparr>p_score := Some (3/2)\<rparr>, laptopStand]"
        "[fixScreen\<lparr>a_score := Some 2\<rparr>, bestLaptops\<lparr>a_score := Some (3/2)\<rparr>]"]
  by (simp add: ex_defs be_defs)

section \<open>Backend: validation\<close>

text \<open>
  Claim C2. When \<^verbatim>\<open>q\<close> is missing, empty or only white space, the handler answers 400
  with \<^verbatim>\<open>success: false\<close> and a message, and its trace of source queries is empty.
\<close>

theorem blank_query_rejected:
  assumes "q = Absent \<or> (\<exists>s. q = Str s \<and> trim s = [])"
  shows "globalSearch d q = (badRequest, [])
       \<and> res_status badRequest = 400 \<and> res_success badRequest = False
       \<and> res_message badRequest \<noteq> None"
  using assms by (auto simp: globalSearch_def badRequest_def)

text \<open>Witness for C2: the query of three spaces.\<close>

theorem blank_query_rejected_witness:
  "trim ''   '' = [] \<and> globalSearch seededDb (Str ''   '') = (badRequest, [])"
  using blank_query_rejected [of "Str ''   ''" seededDb]
  by (simp add: trim_def isWhite_def)

section \<open>Backend: dispatch\<close>

text \<open>
  Claim C3 (the code differs). The handler awaits the product query before it issues the
  article query: with latencies 30 and 50 the article query starts at time 30 and the
  handler is done at time 80, the sum, while the slower source takes 50.
\<close>

theorem source_queries_sequential:
  "snd (globalSearch seededDb (Str ''laptop''))
     = [Issued Products ''laptop'' 0, Settled Products 30,
        Issued Articles ''laptop'' 30, Settled Articles 80]
   \<and> max (productLatency seededDb) (articleLatency seededDb) = 50"
  by (simp add: ex_defs be_defs)

section \<open>Backend: the response without results\<close>

text \<open>
  Claim C9 as stated fails: the body sent when nothing matches has no \<^verbatim>\<open>query\<close> key.
\<close>

theorem empty_result_body_has_no_query:
  "res_status (fst (globalSearch seededDb (Str ''zzz''))) = 200
   \<and> res_query (fst (globalSearch seededDb (Str ''zzz''))) = None"
  by (simp add: ex_defs be_defs)

text \<open>
  Claim C9, amended. A valid query that matches nothing in either source is answered with
  status 200 and the body \<^verbatim>\<open>{success: true, count: 0, message, results: []}\<close>; the body
  has no \<^verbatim>\<open>query\<close> key and no \<^verbatim>\<open>error\<close> key.
\<close>

theorem zero_results_is_success:
  assumes "trim s \<noteq> []" and "findProducts d s = Inr []" and "findArticles d s = Inr []"
  shows "fst (globalSearch d (Str s))
           = \<lparr>res_status = 200, res_success = True, res_count = Some 0, res_query = None,
              res_message = Some (''No results found for '' @ [CHR 0x22] @ s @ [CHR 0x22]),
              res_results = Some [], res_error = None\<rparr>"
proof -
  from assms(1) have "s \<noteq> []" by (auto simp: trim_def)
  with assms show ?thesis
    by (simp add: globalSearch_def respond_def rank_def combine_def Let_def)
qed

text \<open>Witness for C9: the query \<^verbatim>\<open>zzz\<close> on the example database.\<close>

theorem zero_results_is_success_witness:
  "trim ''zzz'' \<noteq> [] \<and> findProducts seededDb ''zzz'' = Inr [] \<and> findArticles seededDb ''zzz'' = Inr []
   \<and> res_status (fst (globalSearch seededDb (Str ''zzz''))) = 200
   \<and> res_count (fst (globalSearch seededDb (Str ''zzz''))) = Some 0
   \<and> res_results (fst (globalSearch seededDb (Str ''zzz''))) = Some []"
  using zero_results_is_success [of "''zzz''" seededDb]
  by (simp add: seededDb_def trim_def isWhite_def)

section \<open>Backend: scores under the regex queries\<close>

lemma score_combine_projected:
  "r \<in> set (combine (map project_product ps) (map project_article as)) \<Longrightarrow> score r = 0"
  by (auto simp: combine_def productResult_def articleResult_def project_product_def
      project_article_def orZero_def)

lemma rank_all_zero: "(\<And>r. r \<in> set rs \<Longrightarrow> score r = 0) \<Longrightarrow> rank rs = rs"
  unfolding rank_def by (rule js_sort_id) (simp add: byScore_def)

text \<open>
  Claim C10. The projections of the two regex queries carry no score, so every result gets
  score 0 and the response lists the products found, in the order of the product query,
  followed by the articles found, in the order of the article query.
\<close>

theorem regex_results_products_then_articles:
  assumes "trim s \<noteq> []" and "findProducts d s = Inr ps" and "findArticles d s = Inr as"
  shows "res_results (fst (globalSearch d (Str s)))
           = Some (map (\<lambda>p. Product (p_id p) (p_name p) (p_description p) (p_category p) (p_price p) 0) ps
                   @ map (\<lambda>a. Article (a_id a) (a_title a) (a_content a) (a_author a) (a_tags a) 0) as)
       \<and> (\<forall>rs. res_results (fst (globalSearch d (Str s))) = Some rs \<longrightarrow> (\<forall>r \<in> set rs. score r = 0))"
proof -
  let ?rs = "combine (map project_product ps) (map project_article as)"
  from assms(1) have ne: "s \<noteq> []" by (auto simp: trim_def)
  have z: "\<And>r. r \<in> set ?rs \<Longrightarrow> score r = 0" by (rule score_combine_projected)
  then have "rank ?rs = ?rs" by (rule rank_all_zero)
  with assms ne have g: "fst (globalSearch d (Str s)) = respond s ?rs"
    by (simp add: globalSearch_def Let_def)
  have r: "res_results (respond s ?rs) = Some ?rs"
    by (simp add: respond_def)
  have e: "?rs = map (\<lambda>p. Product (p_id p) (p_name p) (p_description p) (p_category p) (p_price p) 0) ps
                   @ map (\<lambda>a. Article (a_id a) (a_title a) (a_content a) (a_author a) (a_tags a) 0) as"
    by (simp add: combine_def productResult_def articleResult_def project_product_def
        project_article_def orZero_def o_def)
  from g r e z show ?thesis by auto
qed

text \<open>Witness for C10: the query \<^verbatim>\<open>laptop\<close> on the example database.\<close>

theorem regex_results_products_then_articles_witness:
  "trim ''laptop'' \<noteq> [] \<and> findProducts seededDb ''laptop'' = Inr [laptopScreen, laptopStand]
   \<and> findArticles seededDb ''laptop'' = Inr [fixScreen, bestLaptops]
   \<and> map rid (the (res_results (fst (globalSearch seededDb (Str ''laptop''))))) = [1, 3, 11, 15]"
  using regex_results_products_then_articles [of "''laptop''" seededDb "[laptopScreen, laptopStand]" "[fixScreen, bestLaptops]"]
  by (simp add: ex_defs trim_def isWhite_def)

section \<open>Frontend: the search session\<close>

lemma run_snoc: "run (es @ [e]) = step (run es) e"
  by (simp add: run_def)

lemma run_append2: "run (es @ [e1, e2]) = step (step (run es) e1) e2"
  by (simp add: run_def)

lemma typing_snoc: "typing (ys @ [(g, v)]) = typing ys @ [Elapse g, Change v]"
  by (simp add: typing_def)

lemma trim_Nil: "trim [] = []"
  by (simp add: trim_def)

lemma foldl_performSearch_keeps:
  "timers (foldl (\<lambda>s' t. performSearch (snd (snd t)) s') s ts) = timers s
   \<and> cleanup (foldl (\<lambda>s' t. performSearch (snd (snd t)) s') s ts) = cleanup s
   \<and> st_query (foldl (\<lambda>s' t. performSearch (snd (snd t)) s') s ts) = st_query s
   \<and> clock (foldl (\<lambda>s' t. performSearch (snd (snd t)) s') s ts) = clock s"
  by (induction ts arbitrary: s) (auto simp: performSearch_def)

lemma scheduled_ok_step: "scheduled_ok s \<Longrightarrow> scheduled_ok (step s e)"
proof (cases e)
  case (Change v)
  assume ok: "scheduled_ok s"
  have "timers (runCleanup s) = []"
    using ok by (auto simp: scheduled_ok_def runCleanup_def clearTimeout_def split: option.splits)
  then show ?thesis
    using ok Change by (auto simp: scheduled_ok_def setQuery_def runEffect_def)
next
  case (Elapse d)
  assume ok: "scheduled_ok s"
  have t: "timers (elapse d s) = filter (\<lambda>t. \<not> isDue (clock s + d) t) (timers s)"
    and c: "cleanup (elapse d s) = cleanup s" and q: "st_query (elapse d s) = st_query s"
    by (simp_all add: elapse_def Let_def foldl_performSearch_keeps)
  show ?thesis
  proof (cases "timers s = []")
    case True
    with t Elapse show ?thesis by (simp add: scheduled_ok_def)
  next
    case False
    with ok obtain i due where ts: "timers s = [(i, due, st_query s)]" and cs: "cleanup s = Some i"
      by (auto simp: scheduled_ok_def)
    show ?thesis
    proof (cases "isDue (clock s + d) (i, due, st_query s)")
      case True
      with t ts Elapse show ?thesis by (simp add: scheduled_ok_def)
    next
      case False
      with t ts c cs q Elapse show ?thesis by (simp add: scheduled_ok_def)
    qed
  qed
next
  case (Respond k out)
  assume ok: "scheduled_ok s"
  then show ?thesis
    using Respond
    by (auto simp: scheduled_ok_def settle_def Let_def split: outcome.splits)
qed

lemma scheduled_ok_run: "scheduled_ok (run es)"
proof (induction es rule: rev_induct)
  case Nil
  show ?case by (simp add: run_def scheduled_ok_def initial_def)
next
  case (snoc e es)
  then show ?case by (simp add: run_snoc scheduled_ok_step)
qed

lemma toFixed2_examples:
  "toFixed2 (9 / 8) = ''1.13'' \<and> toFixed2 0 = ''0.00'' \<and> toFixed2 (- 1 / 1000) = ''-0.00''"
  by code_simp

lemma run_append: "run (es @ es') = foldl step (run es) es'"
  by (simp add: run_def)

lemma pending_foldl_performSearch:
  "k \<in> set (pending s) \<Longrightarrow>
   k \<in> set (pending (foldl (\<lambda>s' t. performSearch (snd (snd t)) s') s ts))"
  by (induction ts arbitrary: s) (auto simp: performSearch_def)

lemma pending_setQuery: "pending (setQuery v s) = pending s"
  by (simp add: setQuery_def runEffect_def runCleanup_def clearTimeout_def split: option.splits)

lemma sent_setQuery: "sent (setQuery v s) = sent s"
  by (simp add: setQuery_def runEffect_def runCleanup_def clearTimeout_def split: option.splits)

lemma sent_foldl_performSearch:
  "sent (foldl (\<lambda>s' t. performSearch (snd (snd t)) s') s ts)
     = sent s @ map (\<lambda>t. snd (snd t)) ts"
  by (induction ts arbitrary: s) (auto simp: performSearch_def)

lemma sent_elapse:
  "sent (elapse d s)
     = sent s @ map (\<lambda>t. snd (snd t)) (filter (isDue (clock s + d)) (timers s))"
  by (simp add: elapse_def Let_def sent_foldl_performSearch)

lemma sent_settle: "sent (settle k out s) = sent s"
  by (simp add: settle_def Let_def split: outcome.splits)

lemma pending_step:
  assumes "k \<in> set (pending s)" and "\<forall>out. e \<noteq> Respond k out"
  shows "k \<in> set (pending (step s e))"
proof (cases e)
  case (Change v)
  with assms(1) show ?thesis by (simp add: pending_setQuery)
next
  case (Elapse d)
  with assms(1) show ?thesis
    by (simp add: elapse_def Let_def pending_foldl_performSearch)
next
  case (Respond j out)
  with assms(2) have "j \<noteq> k" by auto
  with assms(1) Respond show ?thesis
    by (auto simp: settle_def Let_def split: outcome.splits)
qed

lemma pending_foldl_step:
  "k \<in> set (pending s) \<Longrightarrow> \<forall>out. Respond k out \<notin> set es \<Longrightarrow>
   k \<in> set (pending (foldl step s es))"
proof (induction es arbitrary: s)
  case Nil
  then show ?case by simp
next
  case (Cons e es)
  from Cons.prems have "\<forall>out. e \<noteq> Respond k out" by auto
  with Cons.prems(1) have "k \<in> set (pending (step s e))" by (rule pending_step)
  moreover from Cons.prems(2) have "\<forall>out. Respond k out \<notin> set es" by auto
  ultimately show ?case using Cons.IH by simp
qed

lemma settle_results:
  "k \<in> set (pending s) \<Longrightarrow>
   st_results (settle k (Ok (Some its)) s) = map normalizeItem its
   \<and> st_hasSearched (settle k (Ok (Some its)) s) = st_hasSearched s
   \<and> st_error (settle k (Ok (Some its)) s) = st_error s"
  by (simp add: settle_def Let_def)

text \<open>
  Claim C4 as stated fails. The request for \<^verbatim>\<open>m\<close> is made, the input changes to \<^verbatim>\<open>mo\<close>,
  and the response for \<^verbatim>\<open>m\<close> arrives: the list shows the results for \<^verbatim>\<open>m\<close> under the
  input \<^verbatim>\<open>mo\<close>. When the input is cleared instead, the response still replaces the
  results state; nothing is shown then, but the results for \<^verbatim>\<open>m\<close> are shown as soon as
  the search for the next input \<^verbatim>\<open>x\<close> starts.
\<close>

theorem stale_response_updates_results:
  "st_query (run [Change ''m'', Elapse 150, Change ''mo'']) = ''mo''
   \<and> sent (run [Change ''m'', Elapse 150, Change ''mo'']) = [''m'']
   \<and> view (run [Change ''m'', Elapse 150, Change ''mo'']) = Searching
   \<and> st_query (run [Change ''m'', Elapse 150, Change ''mo'', Respond 0 (Ok (Some [mouseItem]))]) = ''mo''
   \<and> view (run [Change ''m'', Elapse 150, Change ''mo'', Respond 0 (Ok (Some [mouseItem]))])
        = Cards [normalizeItem mouseItem]
   \<and> st_results (run [Change ''m'', Elapse 150, Change [], Respond 0 (Ok (Some [mouseItem]))])
        = [normalizeItem mouseItem]
   \<and> view (run [Change ''m'', Elapse 150, Change [], Respond 0 (Ok (Some [mouseItem]))]) = Blank
   \<and> sent (run [Change ''m'', Elapse 150, Change [], Respond 0 (Ok (Some [mouseItem])),
                 Change ''x'', Elapse 150]) = [''m'', ''x'']
   \<and> view (run [Change ''m'', Elapse 150, Change [], Respond 0 (Ok (Some [mouseItem])),
                 Change ''x'', Elapse 150]) = Cards [normalizeItem mouseItem]"
  by code_simp

text \<open>
  Claim C4, amended. In every execution at most one search is scheduled and it is for the
  latest input value: an input change cancels the timer of the previous input and
  dispatches nothing itself, and requests are made only for timers that are due, so a
  search superseded before its timer fires never reaches the results state. A request
  already made is not cancelled: an input change leaves the
  pending requests as they are, a pending request stays pending through any events other
  than its own response, and its response then replaces the results state; the list shows
  these results when the component has searched, shows no error and the results are not
  empty.
\<close>

theorem only_latest_input_is_scheduled:
  "length (timers (run es)) \<le> 1
   \<and> (\<forall>t \<in> set (timers (run es)). snd (snd t) = st_query (run es))
   \<and> sent (step (run es) (Change v)) = sent (run es)
   \<and> pending (step (run es) (Change v)) = pending (run es)
   \<and> sent (step (run es) (Elapse d))
       = sent (run es)
         @ map (\<lambda>t. snd (snd t)) (filter (isDue (clock (run es) + d)) (timers (run es)))
   \<and> sent (step (run es) (Respond j out)) = sent (run es)
   \<and> (k \<in> set (pending (run es)) \<and> (\<forall>out. Respond k out \<notin> set es') \<longrightarrow>
        k \<in> set (pending (run (es @ es')))
        \<and> st_results (run (es @ es' @ [Respond k (Ok (Some its))])) = map normalizeItem its
        \<and> (st_hasSearched (run (es @ es')) \<and> \<not> st_error (run (es @ es')) \<and> its \<noteq> [] \<longrightarrow>
             view (run (es @ es' @ [Respond k (Ok (Some its))])) = Cards (map normalizeItem its)))"
proof -
  have "scheduled_ok (run es)" by (rule scheduled_ok_run)
  then have a: "length (timers (run es)) \<le> 1"
    and b: "\<forall>t \<in> set (timers (run es)). snd (snd t) = st_query (run es)"
    by (auto simp: scheduled_ok_def)
  have c: "sent (step (run es) (Change v)) = sent (run es)"
    by (simp add: sent_setQuery)
  have d: "pending (step (run es) (Change v)) = pending (run es)"
    by (simp add: pending_setQuery)
  have f: "sent (step (run es) (Elapse d))
       = sent (run es)
         @ map (\<lambda>t. snd (snd t)) (filter (isDue (clock (run es) + d)) (timers (run es)))"
    by (simp add: sent_elapse)
  have g: "sent (step (run es) (Respond j out)) = sent (run es)"
    by (simp add: sent_settle)
  have e: "k \<in> set (pending (run es)) \<and> (\<forall>out. Respond k out \<notin> set es') \<longrightarrow>
        k \<in> set (pending (run (es @ es')))
        \<and> st_results (run (es @ es' @ [Respond k (Ok (Some its))])) = map normalizeItem its
        \<and> (st_hasSearched (run (es @ es')) \<and> \<not> st_error (run (es @ es')) \<and> its \<noteq> [] \<longrightarrow>
             view (run (es @ es' @ [Respond k (Ok (Some its))])) = Cards (map normalizeItem its))"
  proof
    assume h: "k \<in> set (pending (run es)) \<and> (\<forall>out. Respond k out \<notin> set es')"
    let ?s = "run (es @ es')"
    from h have p: "k \<in> set (pending ?s)"
      unfolding run_append by (simp add: pending_foldl_step)
    have r: "run (es @ es' @ [Respond k (Ok (Some its))]) = settle k (Ok (Some its)) ?s"
      using run_snoc [of "es @ es'" "Respond k (Ok (Some its))"] by simp
    note s = settle_results [OF p, of its]
    have "st_hasSearched ?s \<and> \<not> st_error ?s \<and> its \<noteq> [] \<longrightarrow>
            view (settle k (Ok (Some its)) ?s) = Cards (map normalizeItem its)"
      using s by (simp add: view_def)
    with p r s show "k \<in> set (pending ?s)
        \<and> st_results (run (es @ es' @ [Respond k (Ok (Some its))])) = map normalizeItem its
        \<and> (st_hasSearched ?s \<and> \<not> st_error ?s \<and> its \<noteq> [] \<longrightarrow>
             view (run (es @ es' @ [Respond k (Ok (Some its))])) = Cards (map normalizeItem its))"
      by simp
  qed
  from a b c d f g e show ?thesis by (intro conjI)
qed

text \<open>Witness for C4: the input changes from \<^verbatim>\<open>m\<close> to \<^verbatim>\<open>mo\<close> while the request for
  \<^verbatim>\<open>m\<close> is pending, and the response arrives 100 ms later.\<close>

theorem only_latest_input_is_scheduled_witness:
  "0 \<in> set (pending (run [Change ''m'', Elapse 150]))
   \<and> 0 \<in> set (pending (run ([Change ''m'', Elapse 150] @ [Change ''mo'', Elapse 100])))
   \<and> st_hasSearched (run ([Change ''m'', Elapse 150] @ [Change ''mo'', Elapse 100]))
   \<and> \<not> st_error (run ([Change ''m'', Elapse 150] @ [Change ''mo'', Elapse 100]))
   \<and> st_query (run ([Change ''m'', Elapse 150] @ [Change ''mo'', Elapse 100])) = ''mo''
   \<and> view (run ([Change ''m'', Elapse 150] @ [Change ''mo'', Elapse 100]
                 @ [Respond 0 (Ok (Some [mouseItem]))]))
        = Cards [normalizeItem mouseItem]"
proof -
  let ?es = "[Change ''m'', Elapse 150]"
  let ?es' = "[Change ''mo'', Elapse 100]"
  have p: "0 \<in> set (pending (run ?es))" by code_simp
  have n: "\<forall>out. Respond 0 out \<notin> set ?es'" by simp
  have h: "st_hasSearched (run (?es @ ?es'))" by code_simp
  have e: "\<not> st_error (run (?es @ ?es'))" by code_simp
  have q: "st_query (run (?es @ ?es')) = ''mo''" by code_simp
  have i: "[mouseItem] \<noteq> []" by simp
  from only_latest_input_is_scheduled [of ?es "''mon''" 0 0 Failed 0 ?es' "[mouseItem]"] p n h e i
  have "0 \<in> set (pending (run (?es @ ?es')))
        \<and> view (run (?es @ ?es' @ [Respond 0 (Ok (Some [mouseItem]))]))
            = Cards (map normalizeItem [mouseItem])"
    by blast
  with p h e q show ?thesis by simp
qed

section \<open>Frontend: debouncing\<close>

lemma typing_state:
  assumes "xs \<noteq> []"
    and "\<forall>(gap, v) \<in> set xs. trim v \<noteq> []"
    and "\<forall>(gap, v) \<in> set (tl xs). gap < debounceDelay"
    and "distinct_adj (map snd xs)"
  shows "sent (run (typing xs)) = []
       \<and> st_query (run (typing xs)) = snd (last xs)
       \<and> (\<exists>i. timers (run (typing xs))
                 = [(i, clock (run (typing xs)) + debounceDelay, snd (last xs))]
              \<and> cleanup (run (typing xs)) = Some i)"
  using assms
proof (induction xs rule: rev_induct)
  case Nil
  then show ?case by simp
next
  case (snoc x ys)
  obtain g v where x: "x = (g, v)" by (cases x)
  from snoc.prems(2) x have tv: "trim v \<noteq> []" by auto
  then have vne: "v \<noteq> []" using trim_Nil by auto
  show ?case
  proof (cases "ys = []")
    case True
    with x tv vne show ?thesis
      by (simp add: typing_def run_def initial_def elapse_def setQuery_def runCleanup_def
          runEffect_def Let_def)
  next
    case False
    let ?s = "run (typing ys)"
    have p2: "\<forall>(gap, v) \<in> set ys. trim v \<noteq> []" using snoc.prems(2) by auto
    have p3: "\<forall>(gap, v) \<in> set (tl ys). gap < debounceDelay"
      using snoc.prems(3) False by auto
    have p4: "distinct_adj (map snd ys)"
      using snoc.prems(4) by (simp add: distinct_adj_append_iff)
    from snoc.IH [OF False p2 p3 p4]
    obtain i where s0: "sent ?s = []" and q0: "st_query ?s = snd (last ys)"
      and t0: "timers ?s = [(i, clock ?s + debounceDelay, snd (last ys))]"
      and c0: "cleanup ?s = Some i"
      by blast
    have g: "g < debounceDelay" using snoc.prems(3) False x by auto
    have ne: "v \<noteq> snd (last ys)"
      using snoc.prems(4) False x by (auto simp: distinct_adj_append_iff last_map)
    let ?s1 = "elapse g ?s"
    have e1: "timers ?s1 = timers ?s" "cleanup ?s1 = Some i" "sent ?s1 = []"
      "st_query ?s1 = snd (last ys)" "clock ?s1 = clock ?s + g"
      using g s0 q0 t0 c0 by (simp_all add: elapse_def Let_def isDue_def)
    have "run (typing (ys @ [x])) = setQuery v ?s1"
      by (simp add: x typing_snoc run_append2)
    moreover have "sent (setQuery v ?s1) = []
       \<and> st_query (setQuery v ?s1) = v
       \<and> timers (setQuery v ?s1) = [(nextTimer ?s1, clock (setQuery v ?s1) + debounceDelay, v)]
       \<and> cleanup (setQuery v ?s1) = Some (nextTimer ?s1)"
      using e1 t0 ne tv
      by (simp add: setQuery_def runCleanup_def clearTimeout_def runEffect_def)
    ultimately show ?thesis by (simp add: x)
  qed
qed

text \<open>
  Claim C8. A burst of input changes (each value differs from the one before it and is
  not blank, and each change after the first comes less than the debounce delay after
  the previous one) dispatches no search while it lasts and leaves one timer, for the last
  value; once the delay has passed, exactly one search has been dispatched, for the last
  value, and no timer is left.
\<close>

theorem burst_dispatches_one_search:
  assumes "xs \<noteq> []"
    and "\<forall>(gap, v) \<in> set xs. trim v \<noteq> []"
    and "\<forall>(gap, v) \<in> set (tl xs). gap < debounceDelay"
    and "distinct_adj (map snd xs)"
    and "debounceDelay \<le> d"
  shows "sent (run (typing xs)) = []
       \<and> map (\<lambda>t. snd (snd t)) (timers (run (typing xs))) = [snd (last xs)]
       \<and> sent (run (typing xs @ [Elapse d])) = [snd (last xs)]
       \<and> timers (run (typing xs @ [Elapse d])) = []"
proof -
  let ?s = "run (typing xs)"
  from typing_state [OF assms(1-4)]
  obtain i where s0: "sent ?s = []"
    and t0: "timers ?s = [(i, clock ?s + debounceDelay, snd (last xs))]"
    by blast
  have "sent (elapse d ?s) = [snd (last xs)]" "timers (elapse d ?s) = []"
    using s0 t0 assms(5) by (simp_all add: elapse_def Let_def isDue_def performSearch_def)
  with s0 t0 show ?thesis by (simp add: run_snoc)
qed

text \<open>Witness for C8: \<^verbatim>\<open>m\<close>, \<^verbatim>\<open>mo\<close>, \<^verbatim>\<open>mon\<close> typed 100 and 149 ms apart.\<close>

theorem burst_dispatches_one_search_witness:
  "sent (run (typing [(0, ''m''), (100, ''mo''), (149, ''mon'')])) = []
   \<and> sent (run (typing [(0, ''m''), (100, ''mo''), (149, ''mon'')] @ [Elapse 150])) = [''mon'']"
proof -
  let ?xs = "[(0::nat, ''m''), (100, ''mo''), (149, ''mon'')]"
  have h1: "?xs \<noteq> []" by simp
  have h2: "\<forall>(gap, v) \<in> set ?xs. trim v \<noteq> []" by code_simp
  have h3: "\<forall>(gap, v) \<in> set (tl ?xs). gap < debounceDelay" by code_simp
  have h4: "distinct_adj (map snd ?xs)" by simp
  have h5: "debounceDelay \<le> 150" by code_simp
  from burst_dispatches_one_search [OF h1 h2 h3 h4 h5] show ?thesis by simp
qed

section \<open>Frontend: patterns of escaped terms\<close>

text \<open>An escaped term is read by the parser as the sequence of its characters: none of
  them acts as pattern syntax.\<close>

lemma special_not_word: "c \<in> set specials \<Longrightarrow> \<not> isWordChar c"
  by (auto simp: specials_def isWordChar_def)

lemma parse_special:
  "c \<in> set specials \<Longrightarrow>
   parse (CHR 0x5C # c # rest) f st = parse rest (pushTerm (Chr c) f) st"
  by (simp add: special_not_word)

lemma parse_plain:
  "c \<notin> set specials \<Longrightarrow> parse (c # rest) f st = parse rest (pushTerm (Chr c) f) st"
  by (simp add: specials_def)

lemma parse_escaped:
  "parse (escapeRegExp t @ rest) f st = parse rest (fst f, rev (map Chr t) @ snd f) st"
proof (induction t arbitrary: f)
  case Nil
  show ?case by (simp add: escapeRegExp_def)
next
  case (Cons c t)
  have e: "escapeRegExp (c # t) = (if c \<in> set specials then [CHR 0x5C, c] else [c]) @ escapeRegExp t"
    by (simp add: escapeRegExp_def)
  show ?case
  proof (cases "c \<in> set specials")
    case True
    then have "parse (escapeRegExp (c # t) @ rest) f st
                 = parse (escapeRegExp t @ rest) (pushTerm (Chr c) f) st"
      using parse_special [of c "escapeRegExp t @ rest" f st] by (simp add: e)
    then show ?thesis by (simp add: Cons.IH pushTerm_def)
  next
    case False
    then have "parse (escapeRegExp (c # t) @ rest) f st
                 = parse (escapeRegExp t @ rest) (pushTerm (Chr c) f) st"
      using parse_plain [of c "escapeRegExp t @ rest" f st] by (simp add: e)
    then show ?thesis by (simp add: Cons.IH pushTerm_def)
  qed
qed

lemma parse_alternatives:
  "ts \<noteq> [] \<Longrightarrow>
   parse (join ''|'' (map escapeRegExp ts) @ rest) (as, []) st
     = parse rest (rev (map lits (butlast ts)) @ as, rev (map Chr (last ts))) st"
proof (induction ts arbitrary: as)
  case Nil
  then show ?case by simp
next
  case (Cons t ts)
  show ?case
  proof (cases "ts = []")
    case True
    then show ?thesis using parse_escaped [of t rest "(as, [])" st] by simp
  next
    case False
    then obtain u us where ts: "ts = u # us" by (cases ts) auto
    have "parse (join ''|'' (map escapeRegExp (t # ts)) @ rest) (as, []) st
            = parse (escapeRegExp t @ (CHR ''|'' # join ''|'' (map escapeRegExp ts) @ rest)) (as, []) st"
      by (simp add: ts)
    also have "\<dots> = parse (CHR ''|'' # join ''|'' (map escapeRegExp ts) @ rest) (as, rev (map Chr t)) st"
      by (simp add: parse_escaped)
    also have "\<dots> = parse (join ''|'' (map escapeRegExp ts) @ rest) (lits t # as, []) st"
      by (simp add: newAlt_def lits_def)
    also have "\<dots> = parse rest (rev (map lits (butlast ts)) @ lits t # as, rev (map Chr (last ts))) st"
      by (rule Cons.IH [OF False])
    finally show ?thesis using False by simp
  qed
qed

lemma hd_escapeRegExp_not_question:
  "escapeRegExp t @ rest = e # cs \<Longrightarrow> t \<noteq> [] \<Longrightarrow> e \<noteq> CHR ''?''"
  by (cases t) (auto simp: escapeRegExp_def specials_def split: if_splits)

lemma join_escaped_Cons:
  "ts \<noteq> [] \<Longrightarrow> [] \<notin> set ts \<Longrightarrow>
   \<exists>e cs. join ''|'' (map escapeRegExp ts) @ rest = e # cs \<and> e \<noteq> CHR ''?''"
proof -
  assume a: "ts \<noteq> []" "[] \<notin> set ts"
  then obtain t us where ts: "ts = t # us" and t: "t \<noteq> []" by (cases ts) auto
  then obtain c cs where tc: "t = c # cs" by (cases t) auto
  have "\<exists>r. join ''|'' (map escapeRegExp ts) = escapeRegExp t @ r"
    unfolding ts by (cases us) auto
  then obtain r where r: "join ''|'' (map escapeRegExp ts) = escapeRegExp t @ r" ..
  have "escapeRegExp t @ r @ rest \<noteq> []" by (simp add: tc escapeRegExp_def)
  then obtain e ds where eds: "escapeRegExp t @ r @ rest = e # ds" by (cases "escapeRegExp t @ r @ rest") auto
  with hd_escapeRegExp_not_question [of t "r @ rest" e ds] t have "e \<noteq> CHR ''?''" by simp
  with eds r show ?thesis by simp
qed

lemma altOf_snoc_rev: "altOf (rev (x # rev xs)) = altOf (xs @ [x])"
  by simp

lemma parse_highlight_pattern:
  assumes "ts \<noteq> []" and "[] \<notin> set ts"
  shows "parsePattern (''('' @ join ''|'' (map escapeRegExp ts) @ '')'')
           = Inr (Grp (altOf (map lits ts)))"
proof -
  let ?body = "join ''|'' (map escapeRegExp ts) @ '')''"
  from join_escaped_Cons [OF assms, of "'')''"] obtain e cs
    where b: "?body = e # cs" and e: "e \<noteq> CHR ''?''" by blast
  have "parsePattern (''('' @ ?body) = parse ?body ([], []) [([], [])]"
    unfolding parsePattern_def using b e by simp
  also have "\<dots> = parse '')'' (rev (map lits (butlast ts)), rev (map Chr (last ts))) [([], [])]"
    using parse_alternatives [OF assms(1), of "'')''" "[]" "[([], [])]"] by simp
  also have "\<dots> = Inr (Grp (altOf (map lits (butlast ts) @ [lits (last ts)])))"
    by (simp add: closeFrame_def pushTerm_def lits_def)
  also have "map lits (butlast ts) @ [lits (last ts)] = map lits ts"
    using assms(1) by (metis append_butlast_last_id list.simps(8,9) map_append)
  finally show ?thesis by simp
qed

lemma parse_anchored_pattern:
  "parsePattern (''^'' @ escapeRegExp t @ ''$'') = Inr (seqOf (Bol # map Chr t @ [Eol]))"
proof -
  have "parsePattern (''^'' @ escapeRegExp t @ ''$'') = parse (escapeRegExp t @ ''$'') ([], [Bol]) []"
    by (simp add: parsePattern_def pushTerm_def)
  also have "\<dots> = parse ''$'' ([], rev (map Chr t) @ [Bol]) []"
    by (simp add: parse_escaped)
  also have "\<dots> = Inr (seqOf (Bol # map Chr t @ [Eol]))"
    by (simp add: pushTerm_def closeFrame_def)
  finally show ?thesis .
qed

section \<open>Frontend: matching the highlighter's patterns\<close>

lemma ciPrefix_Nil: "ciPrefix [] s"
  by (simp add: ciPrefix_def)

lemma ciPrefix_Cons:
  "ciPrefix (c # t) s = (case s of [] \<Rightarrow> False | x # xs \<Rightarrow> upper x = upper c \<and> ciPrefix t xs)"
  by (cases s) (auto simp: ciPrefix_def)

lemma matchRx_seqOf_Cons:
  "matchRx ic n (seqOf (r # rs)) s = concat (map (matchRx ic n (seqOf rs)) (matchRx ic n r s))"
proof (cases rs)
  case Nil
  have "matchRx ic n Eps = (\<lambda>s. [s])" by (rule ext) simp
  with Nil show ?thesis by simp
next
  case (Cons a as)
  then show ?thesis by simp
qed

lemma matchRx_lits_then:
  "matchRx True n (seqOf (map Chr t @ rs)) s
     = (if ciPrefix t s then matchRx True n (seqOf rs) (drop (length t) s) else [])"
proof (induction t arbitrary: s)
  case Nil
  show ?case by (simp add: ciPrefix_Nil)
next
  case (Cons c t)
  show ?case
    by (cases s) (simp_all add: matchRx_seqOf_Cons Cons.IH ciPrefix_Cons canon_def del: seqOf.simps)
qed

lemma matchRx_lits:
  "matchRx True n (lits t) s = (if ciPrefix t s then [drop (length t) s] else [])"
  using matchRx_lits_then [of n t "[]" s] by (simp add: lits_def)

lemma matchRx_altOf:
  "rs \<noteq> [] \<Longrightarrow> matchRx ic n (altOf rs) s = concat (map (\<lambda>r. matchRx ic n r s) rs)"
proof (induction rs)
  case Nil
  then show ?case by simp
next
  case (Cons r rs)
  then show ?case by (cases rs) simp_all
qed

lemma matchRx_highlight_regex:
  "ts \<noteq> [] \<Longrightarrow>
   matchRx True n (Grp (altOf (map lits ts))) s
     = concat (map (\<lambda>t. if ciPrefix t s then [drop (length t) s] else []) ts)"
  by (simp add: matchRx_altOf o_def matchRx_lits)

lemma first_of_guarded:
  "(case concat (map (\<lambda>t. if P t then [g t] else []) ts) of [] \<Rightarrow> None | r # _ \<Rightarrow> Some (h r))
     = map_option (\<lambda>t. h (g t)) (find P ts)"
  by (induction ts) auto

lemma matchAt_highlight_regex:
  assumes "ts \<noteq> []"
  shows "matchAt True (Grp (altOf (map lits ts))) S q
           = map_option (\<lambda>t. q + length t) (find (\<lambda>t. ciPrefix t (drop q S)) ts)"
proof -
  have "matchAt True (Grp (altOf (map lits ts))) S q
          = map_option (\<lambda>t. q + (length (drop q S) - length (drop (length t) (drop q S))))
              (find (\<lambda>t. ciPrefix t (drop q S)) ts)"
    unfolding matchAt_def matchRx_highlight_regex [OF assms]
    by (rule first_of_guarded)
  also have "\<dots> = map_option (\<lambda>t. q + length t) (find (\<lambda>t. ciPrefix t (drop q S)) ts)"
  proof (cases "find (\<lambda>t. ciPrefix t (drop q S)) ts")
    case None
    then show ?thesis by simp
  next
    case (Some t)
    then have "ciPrefix t (drop q S)" by (auto simp: find_Some_iff)
    then have "length t \<le> length (drop q S)" by (simp add: ciPrefix_def)
    then have "length (drop q S) - length (drop (length t) (drop q S)) = length t" by simp
    with Some show ?thesis by simp
  qed
  finally show ?thesis .
qed

lemma matchAt_ge: "matchAt ic r S q = Some z \<Longrightarrow> q \<le> z"
  by (auto simp: matchAt_def split: list.splits)

lemma substring_glue:
  "p \<le> q \<Longrightarrow> q \<le> e \<Longrightarrow> e \<le> length S \<Longrightarrow>
   substring S p q @ substring S q e @ drop e S = drop p S"
proof -
  assume a: "p \<le> q" "q \<le> e" "e \<le> length S"
  have 1: "substring S q e @ drop e S = drop q S"
    using a unfolding substring_def
    by (metis append_take_drop_id drop_drop le_add_diff_inverse2)
  have 2: "substring S p q @ drop q S = drop p S"
    using a unfolding substring_def
    by (metis append_take_drop_id drop_drop le_add_diff_inverse2)
  from 1 2 show ?thesis by simp
qed

lemma concat_splitLoop:
  "p \<le> q \<Longrightarrow> q \<le> length S \<Longrightarrow> concat (splitLoop ic (Grp a) S p q) = drop p S"
proof (induction ic "Grp a" S p q rule: splitLoop.induct)
  case (1 ic S p q)
  show ?case
  proof (cases "q < length S")
    case False
    with "1.prems" have "q = length S" by simp
    then show ?thesis
      by (subst splitLoop.simps) (simp add: substring_def)
  next
    case True
    show ?thesis
    proof (cases "matchAt ic (Grp a) S q")
      case None
      with True "1.hyps"(1) "1.prems" show ?thesis
        by (subst splitLoop.simps) simp
    next
      case (Some z)
      let ?e = "min z (length S)"
      have qz: "q \<le> ?e" using matchAt_ge [OF Some] True by simp
      show ?thesis
      proof (cases "?e = p")
        case True
        with \<open>q < length S\<close> Some "1.hyps"(2) "1.prems" show ?thesis
          by (subst splitLoop.simps) simp
      next
        case False
        have "concat (splitLoop ic (Grp a) S ?e ?e) = drop ?e S"
          using "1.hyps"(3) [OF True Some refl False] by simp
        with False \<open>q < length S\<close> Some substring_glue [OF "1.prems"(1) qz, of S]
        show ?thesis
          by (subst splitLoop.simps) (simp add: captures_def Let_def)
      qed
    qed
  qed
qed

lemma groupCount_seqOf_Chr: "groupCount (seqOf (map Chr t)) = 0"
proof (induction t)
  case Nil
  show ?case by simp
next
  case (Cons c t)
  then show ?case by (cases t) simp_all
qed

lemma groupCount_altOf_lits: "groupCount (altOf (map lits ts)) = 0"
proof (induction ts)
  case Nil
  show ?case by simp
next
  case (Cons t ts)
  then show ?case by (cases ts) (simp_all add: lits_def groupCount_seqOf_Chr)
qed

lemma jsSplit_highlight:
  "text \<noteq> [] \<Longrightarrow> jsSplit True (highlightRegex ts) text = Inr (splitLoop True (highlightRegex ts) text 0 0)"
  by (simp add: jsSplit_def highlightRegex_def groupCount_altOf_lits)

lemma matchRx_lits_Eol:
  "matchRx True n (seqOf (map Chr t @ [Eol])) s
     = (if ciPrefix t s \<and> drop (length t) s = [] then [[]] else [])"
proof -
  have "matchRx True n (seqOf [Eol]) (drop (length t) s)
          = (if drop (length t) s = [] then [[]] else [])"
    by simp
  then show ?thesis
    unfolding matchRx_lits_then [of n t "[Eol]" s] by presburger
qed

lemma matchRx_anchored:
  "matchRx True n (seqOf (Bol # map Chr t @ [Eol])) s
     = (if length s = n \<and> ciPrefix t s \<and> drop (length t) s = [] then [[]] else [])"
proof -
  have "matchRx True n (seqOf (Bol # (map Chr t @ [Eol]))) s
          = concat (map (matchRx True n (seqOf (map Chr t @ [Eol]))) (matchRx True n Bol s))"
    by (rule matchRx_seqOf_Cons)
  also have "\<dots> = (if length s = n then matchRx True n (seqOf (map Chr t @ [Eol])) s else [])"
    by simp
  finally show ?thesis
    unfolding matchRx_lits_Eol by simp
qed

lemma ciPrefix_whole:
  "(ciPrefix t s \<and> drop (length t) s = []) = sameIgnoringCase s t"
proof
  assume "ciPrefix t s \<and> drop (length t) s = []"
  then have l: "length t \<le> length s" "length s \<le> length t"
    and u: "map upper (take (length t) s) = map upper t"
    by (auto simp: ciPrefix_def)
  from l have "take (length t) s = s" by simp
  with u show "sameIgnoringCase s t" by (simp add: sameIgnoringCase_def)
next
  assume "sameIgnoringCase s t"
  then have e: "map upper s = map upper t" by (simp add: sameIgnoringCase_def)
  then have "length s = length t" by (rule map_eq_imp_length_eq)
  with e show "ciPrefix t s \<and> drop (length t) s = []" by (simp add: ciPrefix_def)
qed

lemma matchAt_None_iff:
  "(matchAt ic r S q = None) = (matchRx ic (length S) r (drop q S) = [])"
  by (simp add: matchAt_def split: list.splits)

lemma rtest_anchored:
  "rtest True (seqOf (Bol # map Chr t @ [Eol])) part = sameIgnoringCase part t"
proof
  assume "rtest True (seqOf (Bol # map Chr t @ [Eol])) part"
  then obtain i where "i < Suc (length part)"
    and "matchAt True (seqOf (Bol # map Chr t @ [Eol])) part i \<noteq> None"
    unfolding rtest_def list_ex_iff by (auto simp del: upt_Suc seqOf.simps)
  then have "i \<le> length part"
    and "matchRx True (length part) (seqOf (Bol # map Chr t @ [Eol])) (drop i part) \<noteq> []"
    by (simp_all only: matchAt_None_iff less_Suc_eq_le not_False_eq_True)
  then have i: "length (drop i part) = length part"
    and c: "ciPrefix t (drop i part) \<and> drop (length t) (drop i part) = []"
    unfolding matchRx_anchored by (presburger, presburger)
  from i \<open>i \<le> length part\<close> have "i = 0" by simp
  with c have "ciPrefix t part \<and> drop (length t) part = []" by simp
  then show "sameIgnoringCase part t" by (simp only: ciPrefix_whole)
next
  assume "sameIgnoringCase part t"
  then have "ciPrefix t part \<and> drop (length t) part = []" by (simp only: ciPrefix_whole)
  then have "matchRx True (length part) (seqOf (Bol # map Chr t @ [Eol])) (drop 0 part) \<noteq> []"
    unfolding matchRx_anchored by simp
  then have "matchAt True (seqOf (Bol # map Chr t @ [Eol])) part 0 \<noteq> None"
    by (simp only: matchAt_None_iff not_False_eq_True)
  then show "rtest True (seqOf (Bol # map Chr t @ [Eol])) part"
    unfolding rtest_def list_ex_iff by (intro bexI [of _ 0]) simp_all
qed

lemma isMatch_escaped:
  "isMatch (map escapeRegExp ts) part = Inr (\<exists>t \<in> set ts. sameIgnoringCase part t)"
  by (induction ts)
     (simp_all add: parse_anchored_pattern [simplified] rtest_anchored del: seqOf.simps)

lemma renderParts_escaped:
  "renderParts (map escapeRegExp ts) parts
     = Inr (map (\<lambda>p. (p, \<exists>t \<in> set ts. sameIgnoringCase p t)) parts)"
  by (induction parts) (simp_all add: isMatch_escaped)

lemma splitWhite_Nil: "splitWhite [] = [[]]"
  by (subst splitWhite.simps) simp

lemma queryTerms_nonempty: "[] \<notin> set (queryTerms query)"
  by (simp add: queryTerms_def set_js_sort)

lemma HighlightedText_spans:
  assumes "text \<noteq> []" and "queryTerms query \<noteq> []"
  shows "HighlightedText text query
           = Inr (map (\<lambda>p. (p, \<exists>t \<in> set (queryTerms query). sameIgnoringCase p t))
                      (splitLoop True (highlightRegex (queryTerms query)) text 0 0))"
proof -
  have q: "query \<noteq> []"
  proof
    assume "query = []"
    then have "queryTerms query = []" by (simp add: queryTerms_def trim_def splitWhite_Nil)
    with assms(2) show False by simp
  qed
  have p: "parsePattern (''('' @ join ''|'' (map escapeRegExp (queryTerms query)) @ '')'')
             = Inr (highlightRegex (queryTerms query))"
    unfolding highlightRegex_def
    by (rule parse_highlight_pattern [OF assms(2) queryTerms_nonempty])
  show ?thesis
    using assms q
    by (simp add: HighlightedText_def Let_def p [simplified] jsSplit_highlight
        renderParts_escaped del: splitLoop.simps)
qed

text \<open>
  Claim C6. For every text and every query the component renders spans, and the texts of
  the spans, concatenated in order, are the text.
\<close>

theorem spans_cover_text:
  "\<exists>spans. HighlightedText text query = Inr spans \<and> concat (map fst spans) = text"
proof (cases "text = [] \<or> query = [] \<or> queryTerms query = []")
  case True
  then show ?thesis by (auto simp: HighlightedText_def Let_def)
next
  case False
  then have t: "text \<noteq> []" and ts: "queryTerms query \<noteq> []" by auto
  have "concat (splitLoop True (highlightRegex (queryTerms query)) text 0 0) = drop 0 text"
    unfolding highlightRegex_def by (rule concat_splitLoop) simp_all
  then show ?thesis
    by (simp add: HighlightedText_spans [OF t ts] o_def)
qed

section \<open>Frontend: which term is highlighted\<close>

lemma occursAt_ciPrefix: "t \<noteq> [] \<Longrightarrow> occursAt t text i = ciPrefix t (drop i text)"
  by (cases t) (auto simp: occursAt_def ciPrefix_def sameIgnoringCase_def substring_def)

lemma byLength_key: "(byLength x y \<le> 0) = (length y \<le> length x)"
  by (simp add: byLength_def)

lemma queryTerms_sorted: "sorted_wrt (\<lambda>a b. length b \<le> length a) (queryTerms query)"
  unfolding queryTerms_def by (rule sorted_js_sort [OF byLength_key])

lemma find_longest:
  "sorted_wrt (\<lambda>a b. length b \<le> length a) ts \<Longrightarrow> find P ts = Some t \<Longrightarrow>
   u \<in> set ts \<Longrightarrow> P u \<Longrightarrow> length u \<le> length (t::string)"
proof (induction ts)
  case Nil
  then show ?case by simp
next
  case (Cons a ts)
  show ?case
  proof (cases "P a")
    case True
    with Cons.prems have "t = a" by simp
    with Cons.prems show ?thesis by auto
  next
    case False
    with Cons show ?thesis by auto
  qed
qed

lemma captures_highlight: "captures (highlightRegex ts) S q e = [substring S q e]"
  by (simp add: captures_def highlightRegex_def)

lemma splitLoop_skip:
  assumes "\<forall>j. q \<le> j \<and> j < i \<longrightarrow> matchAt ic r S j = None" and "q \<le> i" and "i \<le> length S"
  shows "splitLoop ic r S p q = splitLoop ic r S p i"
  using assms
proof (induction "i - q" arbitrary: q)
  case 0
  then show ?case by simp
next
  case (Suc k)
  then have "q < i" "q < length S" "matchAt ic r S q = None" by auto
  then have "splitLoop ic r S p q = splitLoop ic r S p (q + 1)"
    by (subst splitLoop.simps) simp
  also have "\<dots> = splitLoop ic r S p i"
    using Suc.hyps(1) [of "q + 1"] Suc.hyps(2) Suc.prems \<open>q < i\<close> by auto
  finally show ?case .
qed

lemma splitLoop_match:
  assumes "ts \<noteq> []" and "[] \<notin> set ts"
    and "find (\<lambda>t. ciPrefix t (drop i S)) ts = Some u" and "p \<le> i"
  shows "splitLoop True (highlightRegex ts) S p i
           = substring S p i # substring S i (i + length u)
             # splitLoop True (highlightRegex ts) S (i + length u) (i + length u)"
proof -
  from assms(3) have u: "u \<in> set ts" "ciPrefix u (drop i S)"
    by (auto simp: find_Some_iff)
  with assms(2) have "u \<noteq> []" by auto
  then have n: "0 < length u" by simp
  from u(2) have "length u \<le> length S - i" by (simp add: ciPrefix_def)
  with n have le: "i + length u \<le> length S" by linarith
  with n have lt: "i < length S" by linarith
  have ma: "matchAt True (highlightRegex ts) S i = Some (i + length u)"
    unfolding highlightRegex_def matchAt_highlight_regex [OF assms(1)] using assms(3) by simp
  from n assms(4) have ne: "i + length u \<noteq> p" by linarith
  show ?thesis
    using lt ma le ne
    by (subst splitLoop.simps) (simp add: captures_highlight min_def Let_def)
qed

lemma splitLoop_shift:
  assumes "ts \<noteq> []" and "e \<le> length S"
  shows "splitLoop True (highlightRegex ts) (drop e S) p q
           = splitLoop True (highlightRegex ts) S (e + p) (e + q)"
proof (induction True "highlightRegex ts" "drop e S" p q rule: splitLoop.induct)
  case (1 p q)
  let ?R = "highlightRegex ts"
  have ma: "matchAt True ?R S (e + q) = map_option (\<lambda>z. e + z) (matchAt True ?R (drop e S) q)"
    unfolding highlightRegex_def matchAt_highlight_regex [OF assms(1)]
    by (simp add: option.map_comp o_def add.commute add.left_commute)
  have len: "(q < length (drop e S)) = (e + q < length S)" using assms(2) by auto
  have sub: "\<And>a b. substring (drop e S) a b = substring S (e + a) (e + b)"
    by (simp add: substring_def add.commute)
  note L = splitLoop.simps [of True ?R "drop e S" p q]
  note R = splitLoop.simps [of True ?R S "e + p" "e + q"]
  show ?case
  proof (cases "q < length (drop e S)")
    case False
    then show ?thesis
      using len assms(2) by (simp add: L R sub)
  next
    case True
    show ?thesis
    proof (cases "matchAt True ?R (drop e S) q")
      case None
      with True len ma "1.hyps"(1) show ?thesis
        by (simp add: L R add.assoc)
    next
      case (Some z)
      let ?e1 = "min z (length (drop e S))"
      have mn: "min (e + z) (length S) = e + ?e1" using assms(2) by (auto simp: min_def)
      show ?thesis
      proof (cases "?e1 = p")
        case True
        from "1.hyps"(2) [OF \<open>q < length (drop e S)\<close> Some refl True]
        have "splitLoop True ?R (drop e S) p (q + 1) = splitLoop True ?R S (e + p) (e + (q + 1))" .
        with True \<open>q < length (drop e S)\<close> Some len ma mn show ?thesis
          by (simp add: L R add.assoc)
      next
        case False
        from "1.hyps"(3) [OF True Some refl False]
        have "splitLoop True ?R (drop e S) ?e1 ?e1 = splitLoop True ?R S (e + ?e1) (e + ?e1)" .
        with False True Some len ma mn show ?thesis
          by (simp add: L R sub captures_highlight Let_def)
      qed
    qed
  qed
qed

lemma not_same_as_Nil: "t \<noteq> [] \<Longrightarrow> \<not> sameIgnoringCase [] t"
  by (simp add: sameIgnoringCase_def)

lemma HighlightedText_rest:
  assumes "queryTerms query \<noteq> []" and "e \<le> length text"
  shows "HighlightedText (drop e text) query
           = Inr (map (\<lambda>p. (p, \<exists>t \<in> set (queryTerms query). sameIgnoringCase p t))
                      (splitLoop True (highlightRegex (queryTerms query)) text e e))"
proof (cases "drop e text = []")
  case True
  with assms(2) have e: "e = length text" by simp
  have "\<not> (\<exists>t \<in> set (queryTerms query). sameIgnoringCase [] t)"
    using queryTerms_nonempty [of query] not_same_as_Nil by metis
  then show ?thesis
    using True e
    by (simp add: HighlightedText_def splitLoop.simps [of _ _ "text" "length text" "length text"]
        substring_def)
next
  case False
  show ?thesis
    using HighlightedText_spans [OF False assms(1)]
      splitLoop_shift [OF assms, of 0 0] by simp
qed

text \<open>
  Claim C7 as stated fails: both \<^verbatim>\<open>00\<close> and \<^verbatim>\<open>007\<close> are query terms and \<^verbatim>\<open>007\<close> occurs
  in the text \<^verbatim>\<open>0007\<close> at index 1, but the match of \<^verbatim>\<open>00\<close> at index 0 comes first:
  \<^verbatim>\<open>00\<close> is highlighted and \<^verbatim>\<open>07\<close> is left plain.
\<close>

theorem overlapped_longer_term_is_fragmented:
  "queryTerms ''00 007'' = [''007'', ''00'']
   \<and> occursAt ''007'' ''0007'' 1
   \<and> HighlightedText ''0007'' ''00 007'' = Inr [([], False), (''00'', True), (''07'', False)]"
  by code_simp

text \<open>
  Claim C7, amended. The terms are sorted by descending length. At the leftmost index of
  the text where a query term occurs, up to letter case, the span that is highlighted is
  the longest query term occurring at that index, in one piece and in the text's own
  casing, after the plain text before it; the spans after it are those of the highlighter
  on the rest of the text.
\<close>

theorem longest_term_at_leftmost_occurrence:
  assumes "t \<in> set (queryTerms query)"
    and "occursAt t text i"
    and "\<forall>j<i. \<forall>u \<in> set (queryTerms query). \<not> occursAt u text j"
  shows "sorted_wrt (\<lambda>a b. length b \<le> length a) (queryTerms query)
       \<and> (\<exists>u spans. u \<in> set (queryTerms query) \<and> occursAt u text i \<and> length t \<le> length u
             \<and> (\<forall>v \<in> set (queryTerms query). occursAt v text i \<longrightarrow> length v \<le> length u)
             \<and> HighlightedText text query
                 = Inr ((take i text, False) # (substring text i (i + length u), True) # spans)
             \<and> HighlightedText (drop (i + length u) text) query = Inr spans)"
proof -
  let ?ts = "queryTerms query"
  let ?R = "highlightRegex ?ts"
  let ?hl = "\<lambda>p. (p, \<exists>t \<in> set ?ts. sameIgnoringCase p t)"
  have srt: "sorted_wrt (\<lambda>a b. length b \<le> length a) ?ts" by (rule queryTerms_sorted)
  have ne: "?ts \<noteq> []" using assms(1) by auto
  have nn: "[] \<notin> set ?ts" by (rule queryTerms_nonempty)
  have occ: "\<And>v j. v \<in> set ?ts \<Longrightarrow> occursAt v text j = ciPrefix v (drop j text)"
    using nn by (metis occursAt_ciPrefix)
  from assms(1,2) have "ciPrefix t (drop i text)" by (simp add: occ)
  then obtain u where f: "find (\<lambda>t. ciPrefix t (drop i text)) ?ts = Some u"
    using assms(1) by (cases "find (\<lambda>t. ciPrefix t (drop i text)) ?ts") (auto simp: find_None_iff)
  then have u: "u \<in> set ?ts" "ciPrefix u (drop i text)" by (auto simp: find_Some_iff)
  then have ou: "occursAt u text i" by (simp add: occ)
  then have le: "i + length u \<le> length text" by (simp add: occursAt_def)
  from u nn have "u \<noteq> []" by auto
  then have tne: "text \<noteq> []" using le by auto
  have longest: "\<forall>v \<in> set ?ts. occursAt v text i \<longrightarrow> length v \<le> length u"
    using find_longest [OF srt f] by (auto simp: occ)
  with assms(1,2) have tu: "length t \<le> length u" by blast
  have none: "\<forall>j. 0 \<le> j \<and> j < i \<longrightarrow> matchAt True ?R text j = None"
  proof (intro allI impI)
    fix j
    assume "0 \<le> j \<and> j < i"
    with assms(3) have "\<forall>v \<in> set ?ts. \<not> ciPrefix v (drop j text)" by (auto simp: occ)
    then have "find (\<lambda>t. ciPrefix t (drop j text)) ?ts = None" by (simp add: find_None_iff)
    then show "matchAt True ?R text j = None"
      unfolding highlightRegex_def matchAt_highlight_regex [OF ne] by simp
  qed
  have il: "i \<le> length text" using le by simp
  have "splitLoop True ?R text 0 0 = splitLoop True ?R text 0 i"
    by (rule splitLoop_skip [OF none _ il]) simp
  also have "\<dots> = substring text 0 i # substring text i (i + length u)
                     # splitLoop True ?R text (i + length u) (i + length u)"
    by (rule splitLoop_match [OF ne nn f]) simp
  finally have parts: "splitLoop True ?R text 0 0
        = take i text # substring text i (i + length u)
          # splitLoop True ?R text (i + length u) (i + length u)"
    by (simp add: substring_def)
  have pre: "\<not> (\<exists>v \<in> set ?ts. sameIgnoringCase (take i text) v)"
  proof
    assume "\<exists>v \<in> set ?ts. sameIgnoringCase (take i text) v"
    then obtain v where v: "v \<in> set ?ts" and s: "sameIgnoringCase (take i text) v" by blast
    from s have "length (take i text) = length v"
      unfolding sameIgnoringCase_def by (rule map_eq_imp_length_eq)
    with il have lv: "length v = i" by simp
    from v nn have "v \<noteq> []" by auto
    with lv have "0 < i" by auto
    moreover have "occursAt v text 0"
      using s lv il by (simp add: occursAt_def substring_def)
    ultimately show False using assms(3) v by blast
  qed
  have hit: "\<exists>v \<in> set ?ts. sameIgnoringCase (substring text i (i + length u)) v"
    using u(1) ou by (auto simp: occursAt_def)
  have "HighlightedText text query
          = Inr ((take i text, False) # (substring text i (i + length u), True)
                 # map ?hl (splitLoop True ?R text (i + length u) (i + length u)))"
    using pre hit by (simp add: HighlightedText_spans [OF tne ne] parts)
  moreover have "HighlightedText (drop (i + length u) text) query
          = Inr (map ?hl (splitLoop True ?R text (i + length u) (i + length u)))"
    by (rule HighlightedText_rest [OF ne le])
  ultimately show ?thesis using srt u(1) ou tu longest by blast
qed

text \<open>Witness for C7: \<^verbatim>\<open>lap\<close> and \<^verbatim>\<open>laptop\<close> both occur at index 4 of a product name.\<close>

theorem longest_term_at_leftmost_occurrence_witness:
  "''lap'' \<in> set (queryTerms ''lap laptop'')
   \<and> occursAt ''lap'' ''Pro Laptop Stand for Desk'' 4
   \<and> (\<exists>(u::string) spans. 3 \<le> length u
         \<and> HighlightedText ''Pro Laptop Stand for Desk'' ''lap laptop''
             = Inr ((''Pro '', False)
                    # (substring ''Pro Laptop Stand for Desk'' 4 (4 + length u), True) # spans))"
proof -
  let ?T = "''Pro Laptop Stand for Desk''"
  let ?q = "''lap laptop''"
  have h1: "''lap'' \<in> set (queryTerms ?q)" by code_simp
  have h2: "occursAt ''lap'' ?T 4" by code_simp
  have "\<forall>j \<in> set [0..<4]. \<forall>u \<in> set (queryTerms ?q). \<not> occursAt u ?T j" by code_simp
  then have h3: "\<forall>j<4. \<forall>u \<in> set (queryTerms ?q). \<not> occursAt u ?T j" by simp
  from longest_term_at_leftmost_occurrence [OF h1 h2 h3]
  obtain u :: string and spans where "length ''lap'' \<le> length u"
    and "HighlightedText ?T ?q
           = Inr ((take 4 ?T, False) # (substring ?T 4 (4 + length u), True) # spans)"
    by blast
  then have "3 \<le> length u \<and> HighlightedText ?T ?q
           = Inr ((''Pro '', False) # (substring ?T 4 (4 + length u), True) # spans)"
    by simp
  then have "\<exists>(u::string) spans. 3 \<le> length u \<and> HighlightedText ?T ?q
           = Inr ((''Pro '', False) # (substring ?T 4 (4 + length u), True) # spans)"
    by (intro exI)
  with h1 h2 show ?thesis by (intro conjI)
qed

section \<open>Backend: the pattern handed to the database\<close>

text \<open>
  Claim C5 (the code differs). The handler hands the search term to both queries as the
  \<^verbatim>\<open>$regex\<close> pattern as it is, where the highlighter escapes it: for \<^verbatim>\<open>node.js\<close> the
  dot of the pattern matches any character, so the pattern matches \<^verbatim>\<open>nodeXjs\<close>, which
  the literal term does not; and the one-character query \<^verbatim>\<open>(\<close> is not a pattern.
\<close>

theorem executor_pattern_is_not_escaped:
  "snd (globalSearch seededDb (Str ''node.js''))
     = [Issued Products ''node.js'' 0, Settled Products 30,
        Issued Articles ''node.js'' 30, Settled Articles 80]
   \<and> escapeRegExp ''node.js'' = ''node'' @ [CHR 0x5C] @ ''.js''
   \<and> parsePattern ''node.js''
       = Inr (seqOf [Chr CHR ''n'', Chr CHR ''o'', Chr CHR ''d'', Chr CHR ''e'', AnyChar,
                     Chr CHR ''j'', Chr CHR ''s''])
   \<and> rtest True (seqOf [Chr CHR ''n'', Chr CHR ''o'', Chr CHR ''d'', Chr CHR ''e'', AnyChar,
                     Chr CHR ''j'', Chr CHR ''s'']) ''nodeXjs''
   \<and> \<not> rtest True (lits ''node.js'') ''nodeXjs''
   \<and> parsePattern ''('' = Inl SyntaxError"
  by code_simp

end
